theory Spec2Isabelle
  imports Main "HOL-Library.Word"
begin

unbundle bit_operations_syntax

section \<open>Data model\<close>

text \<open>
  The GEDF-NP scheduler (\<open>scheduler_GEDF_NP.c\<close>, \<open>scheduler_instance.c\<close>) and the
  watchdogs (\<open>watchdog.c\<close>) of the threaded runtime. \<open>size_t\<close> is a 64-bit word, an
  \<open>instant_t\<close> a 64-bit word read as two's complement. A \<open>reaction_t*\<close> is an address
  (a natural number), with \<open>None\<close> for \<open>NULL\<close>; the reactions themselves live in a heap.
\<close>

type_synonym size_t = "64 word"
type_synonym instant_t = "64 word"
type_synonym reaction_ptr = nat

datatype reaction_status_t = inactive | queued | running

record reaction_t =
  index :: "64 word"
  status :: reaction_status_t

type_synonym reaction_heap = "reaction_ptr \<Rightarrow> reaction_t"

text \<open>What stops the program or leaves defined behaviour.\<close>

datatype fault =
  NullDereference
  | OutOfBounds
  | AssertionFailed
  | ErrorAndExit

text \<open>
  How a call that may wait ends: it returns, it stops at a fault, or it stays parked in
  \<open>lf_semaphore_acquire\<close> because the semaphore has no permit (the state it parks in
  is kept).
\<close>

datatype ('a, 's) outcome = Returns 'a | Faults fault | Parked 's

subsection \<open>The reaction queue\<close>

text \<open>
  Modelled from the spec: \<open>pqueue.h\<close> is not among the sources. The reaction queue is
  "a priority queue ordered by index ascending (lower = earlier)" that "supports insert,
  pop, size": a list of reaction addresses kept in ascending order of the index read from
  the heap at the time of the insertion.
\<close>

type_synonym pqueue_t = "reaction_ptr list"

definition pqueue_insert :: "reaction_heap \<Rightarrow> pqueue_t \<Rightarrow> reaction_ptr \<Rightarrow> pqueue_t" where
  "pqueue_insert h q r = insort_key (\<lambda>p. unat (index (h p))) r q"

definition pqueue_pop :: "pqueue_t \<Rightarrow> reaction_ptr option \<times> pqueue_t" where
  "pqueue_pop q = (case q of [] \<Rightarrow> (None, []) | r # rest \<Rightarrow> (Some r, rest))"

definition pqueue_size :: "pqueue_t \<Rightarrow> size_t" where
  "pqueue_size q = of_nat (length q)"

subsection \<open>The scheduler instance\<close>

text \<open>
  \<open>triggered_reactions\<close> is the array of queue pointers that \<open>lf_sched_init\<close> allocates
  (each slot owns its queue, so the array is a list of queues and \<open>[]\<close> is the pointer
  before the allocation); \<open>executing_reactions\<close> points to one of those queues and is
  the index of its slot, so that an insertion into the slot is seen through it.
  The semaphore is its number of permits, with the counts of the calls of
  \<open>lf_semaphore_release\<close> made on it so far, in order.
\<close>

record lf_semaphore_t =
  permits :: nat
  release_calls :: "size_t list"

record lf_scheduler_t =
  max_reaction_level :: size_t
  semaphore :: lf_semaphore_t
  number_of_workers :: size_t
  next_reaction_level :: size_t
  should_stop :: bool
  triggered_reactions :: "pqueue_t list"
  executing_reactions :: "nat option"
  number_of_idle_workers :: size_t

record sched_params_t =
  num_reactions_per_level :: "size_t list option"
  num_reactions_per_level_size :: size_t

text \<open>
  The scheduler together with the reactions it points to and, of the environment it
  refers to, the event queue: for each coming tag, the reactions its events trigger.
\<close>

record sched_state =
  scheduler :: lf_scheduler_t
  reactions :: reaction_heap
  event_queue :: "reaction_ptr option list list"

section \<open>Platform primitives\<close>

text \<open>
  Modelled from the spec: the platform adapter (\<open>atomic_bool_cas32\<close>,
  \<open>semaphore_new(initial)\<close>, \<open>release(count)\<close>) and the macro \<open>LF_MIN\<close> are not among
  the sources. The compare-and-swap is one atomic step on the stored value.
\<close>

definition lf_atomic_bool_compare_and_swap32 ::
  "reaction_status_t \<Rightarrow> reaction_status_t \<Rightarrow> reaction_status_t \<Rightarrow> bool \<times> reaction_status_t" where
  "lf_atomic_bool_compare_and_swap32 cur oldval newval =
     (if cur = oldval then (True, newval) else (False, cur))"

definition lf_semaphore_new :: "nat \<Rightarrow> lf_semaphore_t" where
  "lf_semaphore_new n = \<lparr>permits = n, release_calls = []\<rparr>"

definition lf_semaphore_release :: "lf_semaphore_t \<Rightarrow> size_t \<Rightarrow> lf_semaphore_t" where
  "lf_semaphore_release sem i =
     sem\<lparr>permits := permits sem + unat i, release_calls := release_calls sem @ [i]\<rparr>"

definition LF_MIN :: "size_t \<Rightarrow> size_t \<Rightarrow> size_t" where
  "LF_MIN x y = (if x < y then x else y)"

text \<open>
  Modelled from the spec: \<open>atomic_add_fetch32\<close> of the platform adapter, as
  \<open>lf_atomic_add_fetch32((int32_t*)&number_of_idle_workers, 1)\<close> uses it on the
  \<open>size_t\<close> field of a little-endian machine: the low 32 bits are incremented in
  place, and the new 32-bit value, sign-extended by the cast to \<open>size_t\<close>, is
  returned. The result is the new field and the returned value.
\<close>

definition lf_atomic_add_fetch32 :: "size_t \<Rightarrow> size_t \<times> size_t" where
  "lf_atomic_add_fetch32 v =
     (let low = (ucast v :: 32 word) + 1
      in ((v AND NOT 0xFFFFFFFF) OR ucast low, scast low))"

section \<open>scheduler\_instance.c\<close>

text \<open>
  \<open>calloc(1, sizeof(_lf_sched_instance_t))\<close>: every field zero (the semaphore pointer
  is set by \<open>lf_semaphore_new\<close> before anything reads it).
\<close>

definition calloc_sched_instance :: lf_scheduler_t where
  "calloc_sched_instance =
     \<lparr>max_reaction_level = 0, semaphore = \<lparr>permits = 0, release_calls = []\<rparr>,
      number_of_workers = 0,
      next_reaction_level = 0, should_stop = False, triggered_reactions = [],
      executing_reactions = None, number_of_idle_workers = 0\<rparr>"

text \<open>
  \<open>init_sched_instance\<close>. The macro \<open>DEFAULT_MAX_REACTION_LEVEL\<close> is defined in a header
  that is not among the sources and is the first argument. The result is the returned
  flag and the new value of \<open>*instance\<close>. The fields carry the names that
  \<open>scheduler_GEDF_NP.c\<close> reads them by (\<open>_lf_sched_next_reaction_level\<close> here is
  \<open>next_reaction_level\<close> there, and so on).
\<close>

definition init_sched_instance ::
  "size_t \<Rightarrow> lf_scheduler_t option \<Rightarrow> size_t \<Rightarrow> sched_params_t option
     \<Rightarrow> bool \<times> lf_scheduler_t option" where
  "init_sched_instance DEFAULT_MAX_REACTION_LEVEL instance n_workers params =
     (case instance of
        Some i \<Rightarrow> (False, Some i)
      | None \<Rightarrow>
          let i0 = calloc_sched_instance;
              i1 = (case params of
                      None \<Rightarrow> i0\<lparr>max_reaction_level := DEFAULT_MAX_REACTION_LEVEL\<rparr>
                    | Some p \<Rightarrow>
                        if num_reactions_per_level_size p = 0
                        then i0\<lparr>max_reaction_level := DEFAULT_MAX_REACTION_LEVEL\<rparr>
                        else i0);
              i2 = (case params of
                      None \<Rightarrow> i1
                    | Some p \<Rightarrow>
                        (case num_reactions_per_level p of
                           None \<Rightarrow> i1
                         | Some _ \<Rightarrow>
                             i1\<lparr>max_reaction_level := num_reactions_per_level_size p - 1\<rparr>))
          in (True, Some (i2\<lparr>semaphore := lf_semaphore_new 0,
                             number_of_workers := n_workers,
                             next_reaction_level := 1,
                             should_stop := False\<rparr>)))"

section \<open>scheduler\_GEDF\_NP.c\<close>

text \<open>
  \<open>lf_sched_init\<close>: when the instance is new, one queue slot (\<open>calloc(1, ...)\<close>) holding
  an empty queue, and \<open>executing_reactions\<close> pointing to it.
\<close>

definition lf_sched_init ::
  "size_t \<Rightarrow> lf_scheduler_t option \<Rightarrow> size_t \<Rightarrow> sched_params_t option
     \<Rightarrow> lf_scheduler_t option" where
  "lf_sched_init DEFAULT_MAX_REACTION_LEVEL instance n_workers params =
     (case init_sched_instance DEFAULT_MAX_REACTION_LEVEL instance n_workers params of
        (False, i) \<Rightarrow> i
      | (True, None) \<Rightarrow> None
      | (True, Some i) \<Rightarrow>
          Some (i\<lparr>triggered_reactions := [[]], executing_reactions := Some 0\<rparr>))"

text \<open>Reading the queue a queue pointer points to.\<close>

definition deref_queue :: "lf_scheduler_t \<Rightarrow> nat option \<Rightarrow> fault + pqueue_t" where
  "deref_queue sch p =
     (case p of
        None \<Rightarrow> Inl NullDereference
      | Some k \<Rightarrow>
          if k < length (triggered_reactions sch)
          then Inr (triggered_reactions sch ! k)
          else Inl OutOfBounds)"

text \<open>\<open>_lf_sched_insert_reaction\<close>: always into slot 0.\<close>

definition lf_sched_insert_reaction ::
  "sched_state \<Rightarrow> reaction_ptr \<Rightarrow> fault + sched_state" where
  "lf_sched_insert_reaction s r =
     (case triggered_reactions (scheduler s) of
        [] \<Rightarrow> Inl NullDereference
      | q0 # qs \<Rightarrow>
          Inr (s\<lparr>scheduler := (scheduler s)
                   \<lparr>triggered_reactions := pqueue_insert (reactions s) q0 r # qs\<rparr>\<rparr>))"

text \<open>
  Reading slot \<open>i\<close> of an array of pointers. The array came from \<open>calloc(n, 8)\<close>, whose
  byte count is a \<open>size_t\<close>, so it has fewer than \<open>2 ^ 61\<close> slots.
\<close>

definition array_read :: "'a list \<Rightarrow> size_t \<Rightarrow> fault + 'a" where
  "array_read xs i =
     (if unat i < length xs \<and> length xs < 2 ^ 61 then Inr (xs ! unat i)
      else Inl OutOfBounds)"

text \<open>
  Modelled from the spec: \<open>try_advance_level(env, &level)\<close> is not among the sources;
  it is to "increment level; block if federated peers require".
\<close>

definition try_advance_level :: "size_t \<Rightarrow> size_t" where
  "try_advance_level lvl = lvl + 1"

text \<open>The conversion of the \<open>size_t\<close> count to the \<open>int\<close> that is returned.\<close>

definition size_to_int :: "size_t \<Rightarrow> int" where
  "size_to_int n = sint (ucast n :: 32 word)"

text \<open>
  \<open>_lf_sched_distribute_ready_reactions\<close>: the level is advanced first, then the queue
  in slot \<open>next_reaction_level - 1\<close> is read.
\<close>

function lf_sched_distribute_ready_reactions ::
  "lf_scheduler_t \<Rightarrow> fault + (int \<times> lf_scheduler_t)" where
  "lf_sched_distribute_ready_reactions sch =
     (if next_reaction_level sch \<le> max_reaction_level sch
      then
        (case array_read (triggered_reactions sch)
                (try_advance_level (next_reaction_level sch) - 1) of
           Inl f \<Rightarrow> Inl f
         | Inr tmp_queue \<Rightarrow>
             if pqueue_size tmp_queue \<noteq> 0
             then Inr (size_to_int (pqueue_size tmp_queue),
                       sch\<lparr>next_reaction_level := try_advance_level (next_reaction_level sch),
                           executing_reactions :=
                             Some (unat (try_advance_level (next_reaction_level sch) - 1))\<rparr>)
             else lf_sched_distribute_ready_reactions
                    (sch\<lparr>next_reaction_level := try_advance_level (next_reaction_level sch)\<rparr>))
      else Inr (0, sch))"
  by pat_completeness auto
termination
proof (relation "measure (\<lambda>sch. 2 ^ 64 - unat (next_reaction_level sch))")
  show "wf (measure (\<lambda>sch. 2 ^ 64 - unat (next_reaction_level sch)))"
    by simp
next
  fix sch :: lf_scheduler_t and tmp_queue :: pqueue_t
  assume rd: "array_read (triggered_reactions sch)
                (try_advance_level (next_reaction_level sch) - 1) = Inr tmp_queue"
  have idx: "try_advance_level (next_reaction_level sch) - 1 = next_reaction_level sch"
    by (simp add: try_advance_level_def)
  from rd have small: "unat (next_reaction_level sch) < 2 ^ 61"
    by (simp add: array_read_def idx split: if_splits)
  have "unat (next_reaction_level sch + 1) = unat (next_reaction_level sch) + 1"
    using small by (simp add: unat_word_ariths)
  moreover have "unat (next_reaction_level sch) < 2 ^ 64"
    using small by simp
  ultimately show "(sch\<lparr>next_reaction_level := try_advance_level (next_reaction_level sch)\<rparr>, sch)
        \<in> measure (\<lambda>sch. 2 ^ 64 - unat (next_reaction_level sch))"
    by (simp add: try_advance_level_def)
qed

declare lf_sched_distribute_ready_reactions.simps [simp del]

text \<open>\<open>_lf_sched_notify_workers\<close>.\<close>

definition lf_sched_notify_workers :: "lf_scheduler_t \<Rightarrow> fault + lf_scheduler_t" where
  "lf_sched_notify_workers sch =
     (case deref_queue sch (executing_reactions sch) of
        Inl f \<Rightarrow> Inl f
      | Inr q \<Rightarrow>
          let workers_to_awaken = LF_MIN (number_of_idle_workers sch) (pqueue_size q);
              sch1 = sch\<lparr>number_of_idle_workers :=
                          number_of_idle_workers sch - workers_to_awaken\<rparr>
          in if workers_to_awaken > 1
             then Inr (sch1\<lparr>semaphore :=
                         lf_semaphore_release (semaphore sch1) (workers_to_awaken - 1)\<rparr>)
             else Inr sch1)"

text \<open>\<open>_lf_sched_signal_stop\<close>.\<close>

definition lf_sched_signal_stop :: "lf_scheduler_t \<Rightarrow> lf_scheduler_t" where
  "lf_sched_signal_stop sch =
     sch\<lparr>should_stop := True,
         semaphore := lf_semaphore_release (semaphore sch) (number_of_workers sch - 1)\<rparr>"

text \<open>
  \<open>lf_sched_done_with_reaction\<close>: the compare-and-swap from \<open>queued\<close> to \<open>inactive\<close>;
  when it fails, \<open>lf_print_error_and_exit\<close> ends the program.
\<close>

definition lf_sched_done_with_reaction ::
  "sched_state \<Rightarrow> size_t \<Rightarrow> reaction_ptr \<Rightarrow> fault + sched_state" where
  "lf_sched_done_with_reaction s worker_number done_reaction =
     (case lf_atomic_bool_compare_and_swap32
             (status (reactions s done_reaction)) queued inactive of
        (False, _) \<Rightarrow> Inl ErrorAndExit
      | (True, v) \<Rightarrow>
          Inr (s\<lparr>reactions := (reactions s)
                   (done_reaction := (reactions s done_reaction)\<lparr>status := v\<rparr>)\<rparr>))"

text \<open>
  \<open>lf_scheduler_trigger_reaction\<close>: nothing for \<open>NULL\<close> or when the compare-and-swap
  from \<open>inactive\<close> to \<open>queued\<close> fails; otherwise the insertion.
\<close>

definition lf_scheduler_trigger_reaction ::
  "sched_state \<Rightarrow> reaction_ptr option \<Rightarrow> int \<Rightarrow> fault + sched_state" where
  "lf_scheduler_trigger_reaction s reaction worker_number =
     (case reaction of
        None \<Rightarrow> Inr s
      | Some r \<Rightarrow>
          (case lf_atomic_bool_compare_and_swap32
                  (status (reactions s r)) inactive queued of
             (False, _) \<Rightarrow> Inr s
           | (True, v) \<Rightarrow>
               lf_sched_insert_reaction
                 (s\<lparr>reactions := (reactions s)(r := (reactions s r)\<lparr>status := v\<rparr>)\<rparr>) r))"

text \<open>
  Modelled from the spec: \<open>_lf_sched_advance_tag_locked\<close> is not among the sources; it is
  to "advance logical tag; returns true on stop", and the events of the new tag trigger
  their reactions through \<open>lf_scheduler_trigger_reaction\<close> (with worker number -1).
  The stop tag is reached when the event queue is empty.
\<close>

fun trigger_reactions :: "sched_state \<Rightarrow> reaction_ptr option list \<Rightarrow> fault + sched_state" where
  "trigger_reactions s [] = Inr s"
| "trigger_reactions s (r # rs) =
     (case lf_scheduler_trigger_reaction s r (- 1) of
        Inl f \<Rightarrow> Inl f
      | Inr s' \<Rightarrow> trigger_reactions s' rs)"

definition lf_sched_advance_tag_locked :: "sched_state \<Rightarrow> fault + (bool \<times> sched_state)" where
  "lf_sched_advance_tag_locked s =
     (case event_queue s of
        [] \<Rightarrow> Inr (True, s)
      | rs # later \<Rightarrow>
          (case trigger_reactions (s\<lparr>event_queue := later\<rparr>) rs of
             Inl f \<Rightarrow> Inl f
           | Inr s' \<Rightarrow> Inr (False, s')))"

text \<open>
  \<open>_lf_scheduler_try_advance_tag_and_distribute\<close>. The first half of the loop body: at
  \<open>max_reaction_level + 1\<close> the level is reset and the tag advanced; the flag says that
  the stop tag was reached and the loop left.
\<close>

definition advance_tag_at_last_level :: "sched_state \<Rightarrow> fault + (bool \<times> sched_state)" where
  "advance_tag_at_last_level s =
     (if next_reaction_level (scheduler s) = max_reaction_level (scheduler s) + 1
      then
        (case lf_sched_advance_tag_locked
                (s\<lparr>scheduler := (scheduler s)\<lparr>next_reaction_level := 0\<rparr>\<rparr>) of
           Inl f \<Rightarrow> Inl f
         | Inr (True, s') \<Rightarrow> Inr (True, s'\<lparr>scheduler := lf_sched_signal_stop (scheduler s')\<rparr>)
         | Inr (False, s') \<Rightarrow> Inr (False, s'))
      else Inr (False, s))"

text \<open>The \<open>while (true)\<close> loop, with fuel: \<open>None\<close> when the fuel runs out.\<close>

fun try_advance_tag_loop :: "nat \<Rightarrow> sched_state \<Rightarrow> (fault + sched_state) option" where
  "try_advance_tag_loop 0 s = None"
| "try_advance_tag_loop (Suc n) s =
     (case advance_tag_at_last_level s of
        Inl f \<Rightarrow> Some (Inl f)
      | Inr (True, s') \<Rightarrow> Some (Inr s')
      | Inr (False, s') \<Rightarrow>
          (case lf_sched_distribute_ready_reactions (scheduler s') of
             Inl f \<Rightarrow> Some (Inl f)
           | Inr (k, sch) \<Rightarrow>
               if k > 0
               then (case lf_sched_notify_workers sch of
                       Inl f \<Rightarrow> Some (Inl f)
                     | Inr sch' \<Rightarrow> Some (Inr (s'\<lparr>scheduler := sch'\<rparr>)))
               else try_advance_tag_loop n (s'\<lparr>scheduler := sch\<rparr>)))"

definition lf_scheduler_try_advance_tag_and_distribute ::
  "nat \<Rightarrow> sched_state \<Rightarrow> (fault + sched_state) option" where
  "lf_scheduler_try_advance_tag_and_distribute fuel s =
     (case deref_queue (scheduler s) (executing_reactions (scheduler s)) of
        Inl f \<Rightarrow> Some (Inl f)
      | Inr q \<Rightarrow>
          if pqueue_size q = 0 then try_advance_tag_loop fuel s
          else Some (Inl AssertionFailed))"

text \<open>
  \<open>_lf_sched_wait_for_work\<close>. Modelled from the spec: \<open>lf_semaphore_acquire\<close> takes a
  permit, and "parks until another worker releases a permit" when there is none.
\<close>

definition lf_sched_wait_for_work ::
  "nat \<Rightarrow> sched_state \<Rightarrow> size_t \<Rightarrow> (sched_state, sched_state) outcome option" where
  "lf_sched_wait_for_work fuel s worker_number =
     (let (idle, ret) = lf_atomic_add_fetch32 (number_of_idle_workers (scheduler s));
          s1 = s\<lparr>scheduler := (scheduler s)\<lparr>number_of_idle_workers := idle\<rparr>\<rparr>
      in if ret = number_of_workers (scheduler s1)
         then (case lf_scheduler_try_advance_tag_and_distribute fuel s1 of
                 None \<Rightarrow> None
               | Some (Inl f) \<Rightarrow> Some (Faults f)
               | Some (Inr s2) \<Rightarrow> Some (Returns s2))
         else if permits (semaphore (scheduler s1)) > 0
              then Some (Returns (s1\<lparr>scheduler := (scheduler s1)
                           \<lparr>semaphore := (semaphore (scheduler s1))
                              \<lparr>permits := permits (semaphore (scheduler s1)) - 1\<rparr>\<rparr>\<rparr>))
              else Some (Parked s1))"

text \<open>
  \<open>lf_sched_get_ready_reaction\<close>, with fuel for its \<open>while\<close> loop. The pop is made on the
  queue \<open>executing_reactions\<close> points to, and is seen in its slot.
\<close>

definition pop_executing ::
  "sched_state \<Rightarrow> fault + (reaction_ptr option \<times> sched_state)" where
  "pop_executing s =
     (case executing_reactions (scheduler s) of
        None \<Rightarrow> Inl NullDereference
      | Some k \<Rightarrow>
          if k < length (triggered_reactions (scheduler s))
          then (case pqueue_pop (triggered_reactions (scheduler s) ! k) of
                  (r, q') \<Rightarrow>
                    Inr (r, s\<lparr>scheduler := (scheduler s)
                               \<lparr>triggered_reactions :=
                                  (triggered_reactions (scheduler s))[k := q']\<rparr>\<rparr>))
          else Inl OutOfBounds)"

fun lf_sched_get_ready_reaction ::
  "nat \<Rightarrow> sched_state \<Rightarrow> int
     \<Rightarrow> (reaction_ptr option \<times> sched_state, sched_state) outcome option" where
  "lf_sched_get_ready_reaction 0 s worker_number = None"
| "lf_sched_get_ready_reaction (Suc n) s worker_number =
     (if should_stop (scheduler s) then Some (Returns (None, s))
      else
        (case pop_executing s of
           Inl f \<Rightarrow> Some (Faults f)
         | Inr (Some reaction_to_return, s1) \<Rightarrow> Some (Returns (Some reaction_to_return, s1))
         | Inr (None, s1) \<Rightarrow>
             (case lf_sched_wait_for_work n s1 (word_of_int worker_number) of
                None \<Rightarrow> None
              | Some (Faults f) \<Rightarrow> Some (Faults f)
              | Some (Parked s2) \<Rightarrow> Some (Parked s2)
              | Some (Returns s2) \<Rightarrow> lf_sched_get_ready_reaction n s2 worker_number)))"


section \<open>The workers\<close>

text \<open>
  Modelled from the spec: the worker loop is not among the sources. "Each worker calls
  get_ready_reaction in a loop", runs the reaction it is handed, and "after a worker
  finishes a reaction" calls \<open>lf_sched_done_with_reaction\<close> on it; "external event
  sources call trigger_reaction". The system is the shared state and the reactions
  handed to workers that are not yet done with them. A step is one call, made as a whole
  (the queue is only touched under its mutex); \<open>None\<close> when the call is not one the
  workers make, or does not come back (a fault, no fuel). A worker that finds no permit
  parks, leaving the state it parked in; \<open>Resume\<close> is its return from
  \<open>lf_semaphore_acquire\<close> once there is a permit, back to the top of the loop.
\<close>

record system =
  shared :: sched_state
  handed_out :: "reaction_ptr list"

datatype api_call =
  Trigger "reaction_ptr option" int
  | GetReady int
  | Resume int
  | DoneWith size_t reaction_ptr

definition after_get_ready ::
  "system \<Rightarrow> (reaction_ptr option \<times> sched_state, sched_state) outcome option
     \<Rightarrow> system option" where
  "after_get_ready sys res =
     (case res of
        None \<Rightarrow> None
      | Some (Faults f) \<Rightarrow> None
      | Some (Parked s') \<Rightarrow> Some (sys\<lparr>shared := s'\<rparr>)
      | Some (Returns (None, s')) \<Rightarrow> Some (sys\<lparr>shared := s'\<rparr>)
      | Some (Returns (Some r, s')) \<Rightarrow>
          Some \<lparr>shared = s', handed_out = r # handed_out sys\<rparr>)"

definition take_permit :: "sched_state \<Rightarrow> sched_state" where
  "take_permit s =
     s\<lparr>scheduler := (scheduler s)
          \<lparr>semaphore := (semaphore (scheduler s))
             \<lparr>permits := permits (semaphore (scheduler s)) - 1\<rparr>\<rparr>\<rparr>"

fun api_step :: "nat \<Rightarrow> system \<Rightarrow> api_call \<Rightarrow> system option" where
  "api_step fuel sys (Trigger r w) =
     (case lf_scheduler_trigger_reaction (shared sys) r w of
        Inl f \<Rightarrow> None
      | Inr s' \<Rightarrow> Some (sys\<lparr>shared := s'\<rparr>))"
| "api_step fuel sys (GetReady w) =
     after_get_ready sys (lf_sched_get_ready_reaction fuel (shared sys) w)"
| "api_step fuel sys (Resume w) =
     (if permits (semaphore (scheduler (shared sys))) > 0
      then after_get_ready sys
             (lf_sched_get_ready_reaction fuel (take_permit (shared sys)) w)
      else None)"
| "api_step fuel sys (DoneWith w r) =
     (if r \<in> set (handed_out sys)
      then (case lf_sched_done_with_reaction (shared sys) w r of
              Inl f \<Rightarrow> None
            | Inr s' \<Rightarrow> Some \<lparr>shared = s', handed_out = remove1 r (handed_out sys)\<rparr>)
      else None)"

fun run :: "nat \<Rightarrow> system \<Rightarrow> api_call list \<Rightarrow> system option" where
  "run fuel sys [] = Some sys"
| "run fuel sys (c # cs) =
     (case api_step fuel sys c of
        None \<Rightarrow> None
      | Some sys' \<Rightarrow> run fuel sys' cs)"

text \<open>The reactions on the reaction queues, over all the slots.\<close>

definition on_queue :: "sched_state \<Rightarrow> reaction_ptr list" where
  "on_queue s = concat (triggered_reactions (scheduler s))"

section \<open>watchdog.c\<close>

text \<open>
  Modelled from the spec: \<open>NEVER\<close>, the "distinguished value" that "represents no time";
  its definition is not among the sources, and the least \<open>int64_t\<close> is taken.
\<close>

definition NEVER :: instant_t where
  "NEVER = - (2 ^ 63)"

record watchdog_t =
  expiration :: instant_t
  min_expiration :: instant_t
  active :: bool
  terminate :: bool

text \<open>
  What a function does to the platform, in order; the number is the position of the
  watchdog in \<open>env->watchdogs\<close>.
\<close>

datatype platform_call =
  MutexLock nat
  | MutexUnlock nat
  | CondSignal nat
  | ThreadJoin nat

text \<open>\<open>lf_watchdog_stop\<close>: the watchdog afterwards and the calls made.\<close>

definition lf_watchdog_stop :: "nat \<Rightarrow> watchdog_t \<Rightarrow> watchdog_t \<times> platform_call list" where
  "lf_watchdog_stop i watchdog =
     (if \<not> active watchdog then (watchdog, [])
      else (watchdog\<lparr>expiration := NEVER\<rparr>, [CondSignal i]))"

text \<open>\<open>_lf_watchdog_terminate(watchdog_t*)\<close>.\<close>

definition lf_watchdog_terminate :: "nat \<Rightarrow> watchdog_t \<Rightarrow> watchdog_t \<times> platform_call list" where
  "lf_watchdog_terminate i watchdog =
     (watchdog\<lparr>terminate := True, expiration := NEVER\<rparr>, [CondSignal i])"

text \<open>
  \<open>_lf_watchdog_terminate(environment_t*)\<close>: the loop over \<open>env->watchdogs\<close>, from
  position \<open>i\<close> on.
\<close>

fun lf_watchdog_terminate_from ::
  "nat \<Rightarrow> watchdog_t list \<Rightarrow> watchdog_t list \<times> platform_call list" where
  "lf_watchdog_terminate_from i [] = ([], [])"
| "lf_watchdog_terminate_from i (watchdog # rest) =
     (case lf_watchdog_stop i watchdog of
        (watchdog', calls) \<Rightarrow>
          (case lf_watchdog_terminate_from (Suc i) rest of
             (rest', calls') \<Rightarrow>
               (watchdog' # rest',
                [MutexLock i] @ calls @ [MutexUnlock i, ThreadJoin i] @ calls')))"

definition lf_watchdog_terminate_env ::
  "watchdog_t list \<Rightarrow> watchdog_t list \<times> platform_call list" where
  "lf_watchdog_terminate_env watchdogs = lf_watchdog_terminate_from 0 watchdogs"

text \<open>
  The watchdog thread. While it waits on the condition variable the mutex is free, and
  the other threads may write \<open>expiration\<close> and \<open>terminate\<close>: each return from
  \<open>lf_cond_wait\<close> or \<open>lf_cond_timedwait\<close> takes the next pair of values they left from
  \<open>wakes\<close>, and each \<open>lf_time_physical()\<close> the next reading from \<open>clock\<close>. \<open>None\<close> when
  one of them is used up.
\<close>

type_synonym wake = "instant_t \<times> bool"

text \<open>
  \<open>watchdog_wait\<close>: the loop, with its local \<open>physical_time\<close>; the last value of the
  local is returned with the watchdog and what is left of the two lists.
\<close>

fun watchdog_wait_loop ::
  "watchdog_t \<Rightarrow> instant_t \<Rightarrow> wake list \<Rightarrow> instant_t list
     \<Rightarrow> (watchdog_t \<times> instant_t \<times> wake list \<times> instant_t list) option" where
  "watchdog_wait_loop w physical_time [] clock =
     (if expiration w \<noteq> NEVER \<and> physical_time <s expiration w \<and> \<not> terminate w
      then None
      else Some (w, physical_time, [], clock))"
| "watchdog_wait_loop w physical_time ((e, t) # wakes) clock =
     (if expiration w \<noteq> NEVER \<and> physical_time <s expiration w \<and> \<not> terminate w
      then (case clock of
              [] \<Rightarrow> None
            | now # clock' \<Rightarrow>
                watchdog_wait_loop (w\<lparr>expiration := e, terminate := t\<rparr>) now wakes clock')
      else Some (w, physical_time, (e, t) # wakes, clock))"

definition watchdog_wait ::
  "watchdog_t \<Rightarrow> wake list \<Rightarrow> instant_t list
     \<Rightarrow> (watchdog_t \<times> instant_t \<times> wake list \<times> instant_t list) option" where
  "watchdog_wait w wakes clock =
     (case clock of
        [] \<Rightarrow> None
      | now # clock' \<Rightarrow> watchdog_wait_loop (w\<lparr>active := True\<rparr>) now wakes clock')"

text \<open>The \<open>do ... while\<close> around \<open>lf_cond_wait\<close>.\<close>

fun cond_wait_loop :: "watchdog_t \<Rightarrow> wake list \<Rightarrow> (watchdog_t \<times> wake list) option" where
  "cond_wait_loop w [] = None"
| "cond_wait_loop w ((e, t) # wakes) =
     (if e = NEVER \<and> \<not> t
      then cond_wait_loop (w\<lparr>expiration := e, terminate := t\<rparr>) wakes
      else Some (w\<lparr>expiration := e, terminate := t\<rparr>, wakes))"

text \<open>
  One turn of the \<open>while (true)\<close> loop of \<open>watchdog_thread_main\<close>, in two parts. The
  first part is step 1, up to the return from \<open>watchdog_wait\<close>: \<open>Inl\<close> is the jump to
  \<open>terminate\<close> before any timed wait, \<open>Inr\<close> the watchdog, the physical time last read
  and the rest of the lists.
\<close>

definition wait_for_timeout ::
  "watchdog_t \<Rightarrow> wake list \<Rightarrow> instant_t list
     \<Rightarrow> ((watchdog_t \<times> wake list \<times> instant_t list)
          + (watchdog_t \<times> instant_t \<times> wake list \<times> instant_t list)) option" where
  "wait_for_timeout w wakes clock =
     (if terminate w then Some (Inl (w, wakes, clock))
      else if expiration w \<noteq> NEVER then map_option Inr (watchdog_wait w wakes clock)
      else (case cond_wait_loop w wakes of
              None \<Rightarrow> None
            | Some (w', wakes') \<Rightarrow>
                if terminate w' then Some (Inl (w', wakes', clock))
                else map_option Inr (watchdog_wait w' wakes' clock)))"

text \<open>
  How a turn ends: at the label \<open>terminate\<close>, at the \<open>continue\<close> of a stopped watchdog,
  or after the handler.
\<close>

datatype turn_end = ToTerminate | Stopped | HandlerInvoked

text \<open>
  The whole turn. The watchdog function is user code run on the reactor; what it leaves
  in the watchdog is the function \<open>watchdog_function\<close>.
\<close>

definition watchdog_turn ::
  "(watchdog_t \<Rightarrow> watchdog_t) \<Rightarrow> watchdog_t \<Rightarrow> wake list \<Rightarrow> instant_t list
     \<Rightarrow> (turn_end \<times> watchdog_t \<times> wake list \<times> instant_t list) option" where
  "watchdog_turn watchdog_function w wakes clock =
     (case wait_for_timeout w wakes clock of
        None \<Rightarrow> None
      | Some (Inl (w', wakes', clock')) \<Rightarrow> Some (ToTerminate, w', wakes', clock')
      | Some (Inr (w', physical_time, wakes', clock')) \<Rightarrow>
          if terminate w' then Some (ToTerminate, w', wakes', clock')
          else if expiration w' = NEVER then Some (Stopped, w', wakes', clock')
          else Some (HandlerInvoked, (watchdog_function w')\<lparr>active := False\<rparr>,
                     wakes', clock'))"

text \<open>
  The rest of a turn from a point inside \<open>watchdog_wait\<close>: the thread has entered the
  function or has just come back from \<open>lf_cond_timedwait\<close>, the watchdog is \<open>w\<close> and
  \<open>lf_time_physical()\<close> has just given \<open>physical_time\<close>. The test of the \<open>while\<close>
  comes next, then the rest of the waits, then the tests after \<open>watchdog_wait\<close> and the
  handler.
\<close>

definition turn_from_wake ::
  "(watchdog_t \<Rightarrow> watchdog_t) \<Rightarrow> watchdog_t \<Rightarrow> instant_t \<Rightarrow> wake list \<Rightarrow> instant_t list
     \<Rightarrow> (turn_end \<times> watchdog_t \<times> wake list \<times> instant_t list) option" where
  "turn_from_wake watchdog_function w physical_time wakes clock =
     (case watchdog_wait_loop w physical_time wakes clock of
        None \<Rightarrow> None
      | Some (w', physical_time', wakes', clock') \<Rightarrow>
          if terminate w' then Some (ToTerminate, w', wakes', clock')
          else if expiration w' = NEVER then Some (Stopped, w', wakes', clock')
          else Some (HandlerInvoked, (watchdog_function w')\<lparr>active := False\<rparr>,
                     wakes', clock'))"

text \<open>
  \<open>watchdog_thread_main\<close>: the turns until the label \<open>terminate\<close>, with fuel; the result
  is the watchdog at the end and the number of times the handler ran.
\<close>

fun watchdog_thread_main ::
  "nat \<Rightarrow> (watchdog_t \<Rightarrow> watchdog_t) \<Rightarrow> watchdog_t \<Rightarrow> wake list \<Rightarrow> instant_t list
     \<Rightarrow> (watchdog_t \<times> nat) option" where
  "watchdog_thread_main 0 watchdog_function w wakes clock = None"
| "watchdog_thread_main (Suc n) watchdog_function w wakes clock =
     (case watchdog_turn watchdog_function w wakes clock of
        None \<Rightarrow> None
      | Some (ToTerminate, w', wakes', clock') \<Rightarrow> Some (w'\<lparr>active := False\<rparr>, 0)
      | Some (Stopped, w', wakes', clock') \<Rightarrow>
          watchdog_thread_main n watchdog_function w' wakes' clock'
      | Some (HandlerInvoked, w', wakes', clock') \<Rightarrow>
          map_option (\<lambda>(w'', k). (w'', Suc k))
            (watchdog_thread_main n watchdog_function w' wakes' clock'))"

section \<open>Repeated triggers\<close>

text \<open>
  Calls of \<open>lf_scheduler_trigger_reaction\<close> on one reaction, one call for each worker
  number of the list, one after the other. With the state at the end comes, for each
  call, whether its compare-and-swap made the swap.
\<close>

definition trigger_swaps :: "sched_state \<Rightarrow> reaction_ptr \<Rightarrow> bool" where
  "trigger_swaps s r =
     fst (lf_atomic_bool_compare_and_swap32 (status (reactions s r)) inactive queued)"

fun trigger_calls ::
  "sched_state \<Rightarrow> reaction_ptr \<Rightarrow> int list \<Rightarrow> fault + (bool list \<times> sched_state)" where
  "trigger_calls s r [] = Inr ([], s)"
| "trigger_calls s r (w # ws) =
     (case lf_scheduler_trigger_reaction s (Some r) w of
        Inl f \<Rightarrow> Inl f
      | Inr s' \<Rightarrow>
          (case trigger_calls s' r ws of
             Inl f \<Rightarrow> Inl f
           | Inr (swaps, s'') \<Rightarrow> Inr (trigger_swaps s r # swaps, s'')))"

text \<open>
  The same calls running at once. The compare-and-swap is one atomic step and the
  insertion, under the queue mutex, another; between the two a caller that made the
  swap holds a reaction that is \<open>queued\<close> and not yet on the queue. Each caller is
  at one of three places; a schedule names the caller to make its next step. \<open>swaps\<close>
  counts the compare-and-swaps that made the swap.
\<close>

datatype trigger_pc = BeforeSwap | BeforeInsert | Returned

record trigger_race =
  race_state :: sched_state
  callers :: "trigger_pc list"
  swaps :: nat

definition trigger_step :: "reaction_ptr \<Rightarrow> trigger_race \<Rightarrow> nat \<Rightarrow> trigger_race option" where
  "trigger_step r c i =
     (if i < length (callers c)
      then
        (case callers c ! i of
           BeforeSwap \<Rightarrow>
             (case lf_atomic_bool_compare_and_swap32
                     (status (reactions (race_state c) r)) inactive queued of
                (False, _) \<Rightarrow> Some (c\<lparr>callers := (callers c)[i := Returned]\<rparr>)
              | (True, v) \<Rightarrow>
                  Some (c\<lparr>race_state := (race_state c)
                            \<lparr>reactions := (reactions (race_state c))
                               (r := (reactions (race_state c) r)\<lparr>status := v\<rparr>)\<rparr>,
                          callers := (callers c)[i := BeforeInsert],
                          swaps := Suc (swaps c)\<rparr>))
         | BeforeInsert \<Rightarrow>
             (case lf_sched_insert_reaction (race_state c) r of
                Inl f \<Rightarrow> None
              | Inr s' \<Rightarrow> Some (c\<lparr>race_state := s', callers := (callers c)[i := Returned]\<rparr>))
         | Returned \<Rightarrow> None)
      else None)"

fun trigger_steps :: "reaction_ptr \<Rightarrow> trigger_race \<Rightarrow> nat list \<Rightarrow> trigger_race option" where
  "trigger_steps r c [] = Some c"
| "trigger_steps r c (i # is) =
     (case trigger_step r c i of
        None \<Rightarrow> None
      | Some c' \<Rightarrow> trigger_steps r c' is)"

text \<open>What the steps keep true, for the reaction \<open>r\<close> that was on the queue \<open>n0\<close> times.\<close>

definition race_inv :: "reaction_ptr \<Rightarrow> nat \<Rightarrow> trigger_race \<Rightarrow> bool" where
  "race_inv r n0 c =
     (triggered_reactions (scheduler (race_state c)) \<noteq> []
      \<and> (status (reactions (race_state c) r) = inactive \<or> status (reactions (race_state c) r) = queued)
      \<and> swaps c = (if status (reactions (race_state c) r) = queued then 1 else 0)
      \<and> count_list (hd (triggered_reactions (scheduler (race_state c)))) r
          + count_list (callers c) BeforeInsert = n0 + swaps c
      \<and> (status (reactions (race_state c) r) = inactive \<longrightarrow> (\<forall>p \<in> set (callers c). p = BeforeSwap)))"

section \<open>Accounting for the reactions\<close>

text \<open>
  Every reaction is on the queues and in the hands of the workers once altogether when
  its status is \<open>queued\<close>, and not at all otherwise.
\<close>

definition accounted :: "sched_state \<Rightarrow> reaction_ptr list \<Rightarrow> bool" where
  "accounted s h =
     (\<forall>r. count_list (on_queue s) r + count_list h r
            = (if status (reactions s r) = queued then 1 else 0))"

definition sys_accounted :: "system \<Rightarrow> bool" where
  "sys_accounted sys = accounted (shared sys) (handed_out sys)"

section \<open>Concrete states\<close>

text \<open>
  A scheduler as \<open>lf_sched_init\<close> leaves it for two workers and two levels, with
  reactions that are all inactive; the reaction at address \<open>r\<close> has index \<open>r\<close>.
\<close>

definition fresh_heap :: reaction_heap where
  "fresh_heap = (\<lambda>r. \<lparr>index = of_nat r, status = inactive\<rparr>)"

definition two_level_params :: sched_params_t where
  "two_level_params =
     \<lparr>num_reactions_per_level = Some [1, 1], num_reactions_per_level_size = 2\<rparr>"

definition two_worker_scheduler :: lf_scheduler_t where
  "two_worker_scheduler =
     \<lparr>max_reaction_level = 1, semaphore = \<lparr>permits = 0, release_calls = []\<rparr>,
      number_of_workers = 2, next_reaction_level = 1, should_stop = False,
      triggered_reactions = [[]], executing_reactions = Some 0,
      number_of_idle_workers = 0\<rparr>"

text \<open>Three idle workers and two reactions on the executing queue.\<close>

definition three_idle_scheduler :: lf_scheduler_t where
  "three_idle_scheduler =
     two_worker_scheduler\<lparr>number_of_workers := 3, number_of_idle_workers := 3,
                           triggered_reactions := [[4, 9]]\<rparr>"

definition two_worker_state :: sched_state where
  "two_worker_state =
     \<lparr>scheduler = two_worker_scheduler, reactions = fresh_heap, event_queue = []\<rparr>"

definition two_worker_system :: system where
  "two_worker_system = \<lparr>shared = two_worker_state, handed_out = []\<rparr>"

text \<open>A watchdog that is waiting for the instant 100.\<close>

definition armed_watchdog :: watchdog_t where
  "armed_watchdog =
     \<lparr>expiration = 100, min_expiration = 10, active = True, terminate = False\<rparr>"

text \<open>A watchdog function that terminates its own watchdog.\<close>

definition stopping_handler :: "watchdog_t \<Rightarrow> watchdog_t" where
  "stopping_handler w = w\<lparr>terminate := True, expiration := NEVER\<rparr>"




text \<open>Reaction 7 triggered and handed to a worker that is not done with it.\<close>

definition fetched_system :: system where
  "fetched_system =
     \<lparr>shared = two_worker_state
                 \<lparr>reactions := fresh_heap(7 := (fresh_heap 7)\<lparr>status := queued\<rparr>)\<rparr>,
      handed_out = [7]\<rparr>"

text \<open>
  Reactions with levels: the reaction at address \<open>r\<close> has the level \<open>r\<close>, written in
  the upper 16 bits of its index and in the lower 16 bits as well. In
  \<open>both_running_system\<close> the reactions 0 and 1 are both in the hands of workers.
\<close>

definition levelled_heap :: reaction_heap where
  "levelled_heap = (\<lambda>r. \<lparr>index = of_nat r * 0x1000000000001, status = inactive\<rparr>)"

definition levelled_system :: system where
  "levelled_system =
     \<lparr>shared = \<lparr>scheduler = two_worker_scheduler, reactions = levelled_heap,
                event_queue = []\<rparr>,
      handed_out = []\<rparr>"

definition both_running_system :: system where
  "both_running_system =
     \<lparr>shared = \<lparr>scheduler = two_worker_scheduler,
                reactions = levelled_heap
                  (0 := (levelled_heap 0)\<lparr>status := queued\<rparr>,
                   1 := (levelled_heap 1)\<lparr>status := queued\<rparr>),
                event_queue = []\<rparr>,
      handed_out = [1, 0]\<rparr>"

section \<open>Properties\<close>

subsection \<open>Helper facts\<close>

lemma cas_eval:
  "lf_atomic_bool_compare_and_swap32 c a b = (c = a, if c = a then b else c)"
  by (simp add: lf_atomic_bool_compare_and_swap32_def)

lemma count_list_insort_key:
  "count_list (insort_key f x xs) y = count_list (x # xs) y"
  by (induction xs) auto

lemma count_list_pqueue_insert:
  "count_list (pqueue_insert h q r) r = Suc (count_list q r)"
  by (simp add: pqueue_insert_def count_list_insort_key)

lemma set_pqueue_insert: "set (pqueue_insert h q r) = insert r (set q)"
  by (simp add: pqueue_insert_def set_insort_key)

lemma trigger_first:
  assumes "status (reactions s r) = inactive"
    and "triggered_reactions (scheduler s) = q0 # qs"
  shows "lf_scheduler_trigger_reaction s (Some r) w =
     Inr (s\<lparr>reactions := (reactions s)(r := (reactions s r)\<lparr>status := queued\<rparr>),
            scheduler := (scheduler s)\<lparr>triggered_reactions :=
               pqueue_insert ((reactions s)(r := (reactions s r)\<lparr>status := queued\<rparr>)) q0 r
                 # qs\<rparr>\<rparr>)"
  using assms
  by (simp add: lf_scheduler_trigger_reaction_def lf_sched_insert_reaction_def cas_eval)

lemma trigger_noop:
  assumes "status (reactions s r) \<noteq> inactive"
  shows "lf_scheduler_trigger_reaction s (Some r) w = Inr s"
  using assms by (simp add: lf_scheduler_trigger_reaction_def cas_eval)

lemma trigger_calls_noop:
  assumes "status (reactions s r) \<noteq> inactive"
  shows "trigger_calls s r ws = Inr (replicate (length ws) False, s)"
  using assms by (induction ws) (simp_all add: trigger_noop trigger_swaps_def cas_eval)

lemma two_worker_state_inactive: "status (reactions two_worker_state r) = inactive"
  by (simp add: two_worker_state_def fresh_heap_def)

lemma two_worker_state_queues:
  "triggered_reactions (scheduler two_worker_state) = [] # []"
  by (simp add: two_worker_state_def two_worker_scheduler_def)

subsection \<open>Triggering\<close>

text \<open>
  C1. Let reaction \<open>r\<close> be inactive in a scheduler that \<open>lf_sched_init\<close> has given its
  queue. Of \<open>n \<ge> 1\<close> calls of \<open>lf_scheduler_trigger_reaction\<close> on \<open>r\<close> with no
  \<open>lf_sched_done_with_reaction\<close> between them (whatever the worker numbers), the first
  makes the compare-and-swap from \<open>inactive\<close> to \<open>queued\<close> and inserts \<open>r\<close> into the
  reaction queue once; every other call fails its compare-and-swap and changes nothing,
  neither the status of \<open>r\<close> nor the queue.
\<close>

theorem trigger_reaction_once:
  assumes "status (reactions s r) = inactive"
    and "triggered_reactions (scheduler s) = q0 # qs"
  shows "\<exists>s1. lf_scheduler_trigger_reaction s (Some r) w = Inr s1
           \<and> status (reactions s1 r) = queued
           \<and> triggered_reactions (scheduler s1) = pqueue_insert (reactions s1) q0 r # qs
           \<and> count_list (hd (triggered_reactions (scheduler s1))) r = Suc (count_list q0 r)
           \<and> trigger_calls s r (w # ws) = Inr (True # replicate (length ws) False, s1)
           \<and> (\<forall>w'. lf_scheduler_trigger_reaction s1 (Some r) w' = Inr s1)"
proof -
  let ?h = "(reactions s)(r := (reactions s r)\<lparr>status := queued\<rparr>)"
  let ?s1 = "s\<lparr>reactions := ?h,
               scheduler := (scheduler s)\<lparr>triggered_reactions := pqueue_insert ?h q0 r # qs\<rparr>\<rparr>"
  have first: "lf_scheduler_trigger_reaction s (Some r) w = Inr ?s1"
    using assms by (rule trigger_first)
  have st: "status (reactions ?s1 r) \<noteq> inactive"
    by simp
  have later: "trigger_calls ?s1 r ws = Inr (replicate (length ws) False, ?s1)"
    using st by (rule trigger_calls_noop)
  have swaps: "trigger_swaps s r"
    using assms(1) by (simp add: trigger_swaps_def cas_eval)
  have calls: "trigger_calls s r (w # ws) = Inr (True # replicate (length ws) False, ?s1)"
    by (simp add: first later swaps)
  have noop: "\<forall>w'. lf_scheduler_trigger_reaction ?s1 (Some r) w' = Inr ?s1"
    using st by (simp add: trigger_noop)
  show ?thesis
    using first calls noop by (simp add: count_list_pqueue_insert)
qed

theorem trigger_reaction_once_witness:
  "status (reactions two_worker_state 7) = inactive
   \<and> triggered_reactions (scheduler two_worker_state) = [] # []
   \<and> (\<exists>s1. trigger_calls two_worker_state 7 [0, 1, - 1] = Inr ([True, False, False], s1)
            \<and> triggered_reactions (scheduler s1) = [[7]])"
proof -
  note h1 = two_worker_state_inactive [of 7]
  note h2 = two_worker_state_queues
  from trigger_reaction_once [OF h1 h2, of 0 "[1, - 1]"]
  obtain s1 where q: "triggered_reactions (scheduler s1) = pqueue_insert (reactions s1) [] 7 # []"
    and c: "trigger_calls two_worker_state 7 (0 # [1, - 1])
              = Inr (True # replicate (length [1, - 1 :: int]) False, s1)"
    by blast
  have "triggered_reactions (scheduler s1) = [[7]]"
    using q by (simp add: pqueue_insert_def)
  moreover have "trigger_calls two_worker_state 7 [0, 1, - 1] = Inr ([True, False, False], s1)"
    using c by simp
  ultimately show ?thesis
    using h1 h2 by blast
qed

lemma count_list_update:
  "i < length xs \<Longrightarrow>
     count_list (xs[i := y]) z + (if xs ! i = z then 1 else 0)
       = count_list xs z + (if y = z then 1 else 0)"
proof (induction xs arbitrary: i)
  case Nil
  then show ?case by simp
next
  case (Cons x xs)
  show ?case
  proof (cases i)
    case 0
    then show ?thesis by simp
  next
    case (Suc j)
    with Cons.prems have "j < length xs" by simp
    from Cons.IH [OF this] have
      "count_list (xs[j := y]) z + (if xs ! j = z then 1 else 0)
         = count_list xs z + (if y = z then 1 else 0)" .
    then show ?thesis
      unfolding Suc by (cases "x = z") simp_all
  qed
qed

lemma trigger_step_inv:
  assumes "trigger_step r c i = Some c'" and "race_inv r n0 c"
  shows "race_inv r n0 c'"
proof -
  from assms(1) have i: "i < length (callers c)"
    by (auto simp: trigger_step_def split: if_splits)
  from assms(2) obtain q0 qs where tr: "triggered_reactions (scheduler (race_state c)) = q0 # qs"
    by (cases "triggered_reactions (scheduler (race_state c))") (auto simp: race_inv_def)
  show ?thesis
  proof (cases "callers c ! i")
    case BeforeSwap
    note cu = count_list_update [OF i, of _ BeforeInsert]
    show ?thesis
    proof (cases "status (reactions (race_state c) r) = inactive")
      case True
      with assms(1) i BeforeSwap
      have c': "c' = c\<lparr>race_state := (race_state c)
                            \<lparr>reactions := (reactions (race_state c))
                               (r := (reactions (race_state c) r)\<lparr>status := queued\<rparr>)\<rparr>,
                          callers := (callers c)[i := BeforeInsert],
                          swaps := Suc (swaps c)\<rparr>"
        by (simp add: trigger_step_def cas_eval)
      from cu [of BeforeInsert] BeforeSwap
      have "count_list ((callers c)[i := BeforeInsert]) BeforeInsert
              = Suc (count_list (callers c) BeforeInsert)"
        by simp
      with assms(2) True tr show ?thesis
        by (simp add: race_inv_def c')
    next
      case False
      with assms(1) i BeforeSwap
      have c': "c' = c\<lparr>callers := (callers c)[i := Returned]\<rparr>"
        by (simp add: trigger_step_def cas_eval)
      from cu [of Returned] BeforeSwap
      have "count_list ((callers c)[i := Returned]) BeforeInsert
              = count_list (callers c) BeforeInsert"
        by simp
      with assms(2) False show ?thesis
        by (simp add: race_inv_def c')
    qed
  next
    case BeforeInsert
    with assms(1) i tr
    have c': "c' = c\<lparr>race_state := (race_state c)\<lparr>scheduler := (scheduler (race_state c))
                   \<lparr>triggered_reactions := pqueue_insert (reactions (race_state c)) q0 r # qs\<rparr>\<rparr>,
                 callers := (callers c)[i := Returned]\<rparr>"
      by (simp add: trigger_step_def lf_sched_insert_reaction_def)
    from i have "callers c ! i \<in> set (callers c)"
      by (rule nth_mem)
    with assms(2) BeforeInsert have nq: "status (reactions (race_state c) r) \<noteq> inactive"
      by (auto simp: race_inv_def)
    from count_list_update [OF i, of Returned BeforeInsert] BeforeInsert
    have "Suc (count_list ((callers c)[i := Returned]) BeforeInsert)
              = count_list (callers c) BeforeInsert"
      by simp
    with assms(2) nq tr show ?thesis
      by (auto simp: race_inv_def c' count_list_pqueue_insert)
  next
    case Returned
    with assms(1) i show ?thesis
      by (simp add: trigger_step_def)
  qed
qed

lemma trigger_steps_inv:
  "trigger_steps r c sched = Some c' \<Longrightarrow> race_inv r n0 c \<Longrightarrow> race_inv r n0 c'"
  by (induction sched arbitrary: c) (auto split: option.splits dest: trigger_step_inv)

lemma trigger_steps_length:
  "trigger_steps r c sched = Some c' \<Longrightarrow> length (callers c') = length (callers c)"
  by (induction sched arbitrary: c)
     (auto simp: trigger_step_def cas_eval split: option.splits if_splits trigger_pc.splits sum.splits)

text \<open>
  The same for calls that run at once, \<open>n + 1\<close> of them in any interleaving of their
  steps: when all have returned, exactly one compare-and-swap made the swap, the
  reaction is \<open>queued\<close> and is on the queue once more than before.
\<close>

lemma interleaved_triggers_insert_once:
  assumes "status (reactions s r) = inactive"
    and "triggered_reactions (scheduler s) = q0 # qs"
    and "trigger_steps r \<lparr>race_state = s, callers = replicate (Suc n) BeforeSwap, swaps = 0\<rparr> sched
           = Some c'"
    and "\<forall>p \<in> set (callers c'). p = Returned"
  shows "swaps c' = 1
       \<and> status (reactions (race_state c') r) = queued
       \<and> count_list (hd (triggered_reactions (scheduler (race_state c')))) r = Suc (count_list q0 r)"
proof -
  let ?c = "\<lparr>race_state = s, callers = replicate (Suc n) BeforeSwap, swaps = 0\<rparr>"
  have "race_inv r (count_list q0 r) ?c"
    using assms(1,2) by (simp add: race_inv_def)
  from trigger_steps_inv [OF assms(3) this]
  have inv: "race_inv r (count_list q0 r) c'" .
  from trigger_steps_length [OF assms(3)] have "callers c' \<noteq> []"
    by auto
  then obtain p where p: "p \<in> set (callers c')"
    by (cases "callers c'") auto
  with assms(4) have "p = Returned" by blast
  with p inv have q: "status (reactions (race_state c') r) = queued"
    by (auto simp: race_inv_def)
  have "count_list (callers c') BeforeInsert = 0"
    using assms(4) by (auto simp: count_list_0_iff)
  with inv q show ?thesis
    by (simp add: race_inv_def)
qed

lemma interleaved_triggers_example:
  "trigger_steps 7
     \<lparr>race_state = two_worker_state, callers = [BeforeSwap, BeforeSwap], swaps = 0\<rparr> [0, 1, 0]
   = Some \<lparr>race_state = two_worker_state
              \<lparr>reactions := fresh_heap(7 := (fresh_heap 7)\<lparr>status := queued\<rparr>),
               scheduler := two_worker_scheduler\<lparr>triggered_reactions := [[7]]\<rparr>\<rparr>,
            callers = [Returned, Returned], swaps = 1\<rparr>"
  by (simp add: trigger_step_def cas_eval two_worker_state_def fresh_heap_def
      lf_sched_insert_reaction_def two_worker_scheduler_def pqueue_insert_def)




subsection \<open>Notification of the workers\<close>

text \<open>
  C2. For every call of \<open>_lf_sched_notify_workers\<close> with \<open>i = number_of_idle_workers\<close>
  and \<open>s\<close> the size of the executing queue at entry, the function computes
  \<open>k = min(i, s)\<close>, decreases \<open>number_of_idle_workers\<close> by exactly \<open>k\<close> (without
  wrap-around), and adds exactly \<open>k - 1\<close> permits to the semaphore when \<open>k > 1\<close> and none
  when \<open>k \<le> 1\<close>: \<open>lf_semaphore_release\<close> is called once with the count \<open>k - 1\<close> when
  \<open>k > 1\<close> and not at all otherwise, and \<open>k - 1\<close> is never \<open>k\<close>, so that no call releases
  \<open>k\<close> permits.
\<close>

theorem notify_workers_releases_one_less:
  assumes "deref_queue sch (executing_reactions sch) = Inr q"
  shows "\<exists>sch'. lf_sched_notify_workers sch = Inr sch'
     \<and> unat (LF_MIN (number_of_idle_workers sch) (pqueue_size q))
         = min (unat (number_of_idle_workers sch)) (unat (pqueue_size q))
     \<and> number_of_idle_workers sch'
         = number_of_idle_workers sch - LF_MIN (number_of_idle_workers sch) (pqueue_size q)
     \<and> unat (number_of_idle_workers sch')
         = unat (number_of_idle_workers sch)
             - unat (LF_MIN (number_of_idle_workers sch) (pqueue_size q))
     \<and> permits (semaphore sch')
         = permits (semaphore sch)
             + (if 1 < unat (LF_MIN (number_of_idle_workers sch) (pqueue_size q))
                then unat (LF_MIN (number_of_idle_workers sch) (pqueue_size q)) - 1 else 0)
     \<and> release_calls (semaphore sch')
         = release_calls (semaphore sch)
             @ (if 1 < LF_MIN (number_of_idle_workers sch) (pqueue_size q)
                then [LF_MIN (number_of_idle_workers sch) (pqueue_size q) - 1] else [])
     \<and> LF_MIN (number_of_idle_workers sch) (pqueue_size q) - 1
         \<noteq> LF_MIN (number_of_idle_workers sch) (pqueue_size q)"
  using assms
  by (auto simp: lf_sched_notify_workers_def Let_def lf_semaphore_release_def LF_MIN_def
      word_less_nat_alt unat_sub word_le_nat_alt min_def)

theorem notify_workers_releases_one_less_witness:
  "deref_queue three_idle_scheduler (executing_reactions three_idle_scheduler) = Inr [4, 9]
   \<and> (\<exists>sch'. lf_sched_notify_workers three_idle_scheduler = Inr sch'
          \<and> number_of_idle_workers sch' = 1
          \<and> permits (semaphore sch') = 1
          \<and> release_calls (semaphore sch') = [1])"
proof -
  have h: "deref_queue three_idle_scheduler (executing_reactions three_idle_scheduler)
             = Inr [4, 9]"
    by (simp add: deref_queue_def three_idle_scheduler_def two_worker_scheduler_def)
  have i: "number_of_idle_workers three_idle_scheduler = 3"
    and p: "permits (semaphore three_idle_scheduler) = 0"
    and c: "release_calls (semaphore three_idle_scheduler) = []"
    by (simp_all add: three_idle_scheduler_def two_worker_scheduler_def)
  have k: "LF_MIN 3 (pqueue_size [4, 9]) = 2"
    by (simp add: LF_MIN_def pqueue_size_def)
  from notify_workers_releases_one_less [OF h]
  have "\<exists>sch'. lf_sched_notify_workers three_idle_scheduler = Inr sch'
          \<and> number_of_idle_workers sch' = 1
          \<and> permits (semaphore sch') = 1
          \<and> release_calls (semaphore sch') = [1]"
    by (auto simp add: i p c k)
  with h show ?thesis
    by blast
qed

subsection \<open>Initialisation\<close>

text \<open>
  C9, as the code has it. On the first call of \<open>init_sched_instance\<close> (the instance is
  \<open>NULL\<close>), for params that do not give a non-\<open>NULL\<close> array together with the size 0:
  \<open>max_reaction_level\<close> is \<open>DEFAULT_MAX_REACTION_LEVEL\<close> when \<open>params\<close> is \<open>NULL\<close>; it is
  \<open>num_reactions_per_level_size - 1\<close> when \<open>params\<close> has a non-\<open>NULL\<close>
  \<open>num_reactions_per_level\<close>; when that array is \<open>NULL\<close> it is
  \<open>DEFAULT_MAX_REACTION_LEVEL\<close> for the size 0 and stays 0, as \<open>calloc\<close> left it, for
  any other size. \<open>next_reaction_level\<close> is 1, and the call returns \<open>true\<close>. Any later
  call (the instance is not \<open>NULL\<close>) returns \<open>false\<close> and leaves the instance as it is.
\<close>

theorem init_sched_instance_levels:
  assumes "\<forall>p. params = Some p \<and> num_reactions_per_level p \<noteq> None
             \<longrightarrow> num_reactions_per_level_size p \<noteq> 0"
  shows "(\<exists>i. init_sched_instance D None n params = (True, Some i)
            \<and> next_reaction_level i = 1
            \<and> max_reaction_level i =
                (case params of
                   None \<Rightarrow> D
                 | Some p \<Rightarrow>
                     (case num_reactions_per_level p of
                        Some a \<Rightarrow> num_reactions_per_level_size p - 1
                      | None \<Rightarrow> if num_reactions_per_level_size p = 0 then D else 0)))
         \<and> init_sched_instance D (Some j) n' params' = (False, Some j)"
  by (auto simp: init_sched_instance_def Let_def calloc_sched_instance_def
      split: option.splits)

theorem init_sched_instance_levels_witness:
  "(\<exists>i. init_sched_instance 100 None 2 (Some two_level_params) = (True, Some i)
            \<and> next_reaction_level i = 1 \<and> max_reaction_level i = 1)
   \<and> init_sched_instance 100 (Some two_worker_scheduler) 5 None
        = (False, Some two_worker_scheduler)"
proof -
  have h: "\<forall>p. Some two_level_params = Some p \<and> num_reactions_per_level p \<noteq> None
             \<longrightarrow> num_reactions_per_level_size p \<noteq> 0"
    by (simp add: two_level_params_def)
  from init_sched_instance_levels [OF h, of 100 2 two_worker_scheduler 5 None]
  show ?thesis
    by (simp add: two_level_params_def)
qed

text \<open>
  The claim as the spec has it fails for params with a size other than 0 and no array:
  \<open>max_reaction_level\<close> is then 0, not the size less one.
\<close>

theorem init_sched_instance_size_without_array:
  "map_option max_reaction_level
     (snd (init_sched_instance 100 None 4
             (Some \<lparr>num_reactions_per_level = None, num_reactions_per_level_size = 3\<rparr>)))
   \<noteq> Some (3 - 1)"
  by (simp add: init_sched_instance_def Let_def calloc_sched_instance_def)

text \<open>
  Left out of the statement above: a non-\<open>NULL\<close> array with the size 0. The second
  assignment then overwrites the default with \<open>0 - 1\<close>, the greatest \<open>size_t\<close>.
\<close>

lemma init_sched_instance_size_zero_with_array:
  "map_option max_reaction_level
     (snd (init_sched_instance 100 None 4
             (Some \<lparr>num_reactions_per_level = Some [], num_reactions_per_level_size = 0\<rparr>)))
   = Some (- 1)"
  by (simp add: init_sched_instance_def Let_def calloc_sched_instance_def)

subsection \<open>Distribution by level\<close>

lemma lf_sched_init_two_levels:
  "lf_sched_init 100 None 2 (Some two_level_params) = Some two_worker_scheduler"
  by (simp add: lf_sched_init_def init_sched_instance_def Let_def calloc_sched_instance_def
      two_level_params_def two_worker_scheduler_def lf_semaphore_new_def)

text \<open>
  C5. The claim is that the index \<open>next_reaction_level - 1\<close> that
  \<open>_lf_sched_distribute_ready_reactions\<close> uses lies within the one slot that
  \<open>lf_sched_init\<close> allocates. The code does not keep it there: for a program of two
  levels, \<open>lf_sched_init\<close> leaves \<open>next_reaction_level = 1\<close> and
  \<open>max_reaction_level = 1\<close> with one slot, and the first call of the function advances
  the level to 2 and reads slot 1, past the end of the array.
\<close>

theorem distribute_reads_past_the_queue_array:
  "lf_sched_init 100 None 2 (Some two_level_params) = Some two_worker_scheduler
   \<and> length (triggered_reactions two_worker_scheduler) = 1
   \<and> try_advance_level (next_reaction_level two_worker_scheduler) - 1 = 1
   \<and> lf_sched_distribute_ready_reactions two_worker_scheduler = Inl OutOfBounds"
  by (simp add: lf_sched_init_two_levels)
     (simp add: lf_sched_distribute_ready_reactions.simps two_worker_scheduler_def
        try_advance_level_def array_read_def)

text \<open>
  With a single level (\<open>max_reaction_level = 0\<close>) the function stays within the slot:
  it reads a queue only from \<open>next_reaction_level = 0\<close>, at index 0.
\<close>

lemma distribute_single_level:
  assumes "max_reaction_level sch = 0"
    and "triggered_reactions sch = [q]"
  shows "lf_sched_distribute_ready_reactions sch =
     (if next_reaction_level sch = 0
      then (if pqueue_size q \<noteq> 0
            then Inr (size_to_int (pqueue_size q),
                      sch\<lparr>next_reaction_level := 1, executing_reactions := Some 0\<rparr>)
            else Inr (0, sch\<lparr>next_reaction_level := 1\<rparr>))
      else Inr (0, sch))"
  using assms
  apply (subst lf_sched_distribute_ready_reactions.simps)
  apply (subst lf_sched_distribute_ready_reactions.simps)
  apply (auto simp: try_advance_level_def array_read_def)
  done

subsection \<open>Watchdogs\<close>

lemma terminate_from_keeps_flags:
  "lf_watchdog_terminate_from i ws = (ws', calls) \<Longrightarrow> map terminate ws' = map terminate ws"
proof (induction ws arbitrary: i ws' calls)
  case Nil
  then show ?case by simp
next
  case (Cons a ws)
  obtain r c where rc: "lf_watchdog_terminate_from (Suc i) ws = (r, c)"
    by (cases "lf_watchdog_terminate_from (Suc i) ws")
  from Cons.IH [OF rc] Cons.prems rc show ?case
    by (auto simp: lf_watchdog_stop_def split: if_splits)
qed

text \<open>
  The shutdown never sets a \<open>terminate\<close> flag: the flags after
  \<open>_lf_watchdog_terminate(environment_t*)\<close> are the flags before it.
\<close>

lemma watchdog_terminate_env_keeps_flags:
  "map terminate (fst (lf_watchdog_terminate_env ws)) = map terminate ws"
  using terminate_from_keeps_flags [of 0 ws]
  by (cases "lf_watchdog_terminate_from 0 ws") (simp add: lf_watchdog_terminate_env_def)

text \<open>
  C3. The claim is that the shutdown, for each watchdog and under its mutex, calls
  \<open>lf_watchdog_stop\<close> and then \<open>_lf_watchdog_terminate(watchdog_t*)\<close>, which sets
  \<open>terminate\<close> and makes \<open>expiration\<close> \<open>NEVER\<close>, before it joins the thread. The code
  calls \<open>lf_watchdog_stop\<close> only: for one armed watchdog it locks, makes \<open>expiration\<close>
  \<open>NEVER\<close>, signals once, unlocks and joins, and \<open>terminate\<close> is still false, where the
  call of \<open>_lf_watchdog_terminate(watchdog_t*)\<close> would have set it and signalled again.
\<close>

theorem watchdog_shutdown_only_stops:
  "lf_watchdog_terminate_env [armed_watchdog]
     = ([armed_watchdog\<lparr>expiration := NEVER\<rparr>],
        [MutexLock 0, CondSignal 0, MutexUnlock 0, ThreadJoin 0])
   \<and> terminate (armed_watchdog\<lparr>expiration := NEVER\<rparr>) = False
   \<and> lf_watchdog_terminate 0 (armed_watchdog\<lparr>expiration := NEVER\<rparr>)
       = (armed_watchdog\<lparr>terminate := True, expiration := NEVER\<rparr>, [CondSignal 0])"
  by (simp add: lf_watchdog_terminate_env_def lf_watchdog_stop_def lf_watchdog_terminate_def
      armed_watchdog_def)

lemma wait_loop_exit:
  "watchdog_wait_loop w pt wakes clock = Some (w', pt', wakes', clock') \<Longrightarrow>
     expiration w' = NEVER \<or> \<not> pt' <s expiration w' \<or> terminate w'"
proof (induction w pt wakes clock rule: watchdog_wait_loop.induct)
  case (1 w physical_time clock)
  then show ?case by (auto split: if_splits)
next
  case (2 w physical_time e t wakes clock)
  then show ?case by (auto split: if_splits list.splits)
qed

lemma watchdog_wait_exit:
  "watchdog_wait w wakes clock = Some (w', pt', wakes', clock') \<Longrightarrow>
     expiration w' = NEVER \<or> \<not> pt' <s expiration w' \<or> terminate w'"
  by (auto simp: watchdog_wait_def split: list.splits dest: wait_loop_exit)

lemma wait_for_timeout_exit:
  assumes "wait_for_timeout w wakes clock = Some (Inr (wt, pt, wakes', clock'))"
  shows "expiration wt = NEVER \<or> \<not> pt <s expiration wt \<or> terminate wt"
  using assms
  by (auto simp: wait_for_timeout_def split: if_splits option.splits dest: watchdog_wait_exit)

lemma watchdog_turn_handler:
  "watchdog_turn f w wakes clock = Some (e, w', wakes', clock') \<Longrightarrow>
     (e = HandlerInvoked) =
       (\<exists>wt pt. wait_for_timeout w wakes clock = Some (Inr (wt, pt, wakes', clock'))
              \<and> \<not> terminate wt \<and> expiration wt \<noteq> NEVER)"
  by (auto simp: watchdog_turn_def split: option.splits sum.splits if_splits)

lemma watchdog_turn_inactive:
  "watchdog_turn f w wakes clock = Some (HandlerInvoked, w', wakes', clock')
     \<Longrightarrow> \<not> active w'"
  by (auto simp: watchdog_turn_def split: option.splits sum.splits if_splits)

lemma wait_loop_ends:
  "\<not> (expiration v \<noteq> NEVER \<and> pt <s expiration v \<and> \<not> terminate v)
     \<Longrightarrow> watchdog_wait_loop v pt wakes clock = Some (v, pt, wakes, clock)"
  by (cases wakes) auto

lemma wait_loop_waits:
  "expiration v \<noteq> NEVER \<Longrightarrow> pt <s expiration v \<Longrightarrow> \<not> terminate v
     \<Longrightarrow> watchdog_wait_loop v pt ((e, t) # wakes) (now # clock)
         = watchdog_wait_loop (v\<lparr>expiration := e, terminate := t\<rparr>) now wakes clock"
  by simp

lemma not_sless: "(\<not> a <s b) = (b \<le>s a)"
  by (simp add: word_sless_alt word_sle_eq not_less)

lemma wake_fires:
  "\<not> terminate v \<Longrightarrow> expiration v \<noteq> NEVER \<Longrightarrow> expiration v \<le>s pt
     \<Longrightarrow> turn_from_wake f v pt wakes clock
         = Some (HandlerInvoked, (f v)\<lparr>active := False\<rparr>, wakes, clock)"
  by (simp add: turn_from_wake_def wait_loop_ends not_sless)

lemma wake_terminates:
  "terminate v \<Longrightarrow> turn_from_wake f v pt wakes clock = Some (ToTerminate, v, wakes, clock)"
  by (simp add: turn_from_wake_def wait_loop_ends)

lemma wake_stopped:
  "\<not> terminate v \<Longrightarrow> expiration v = NEVER
     \<Longrightarrow> turn_from_wake f v pt wakes clock = Some (Stopped, v, wakes, clock)"
  by (simp add: turn_from_wake_def wait_loop_ends)

lemma wake_early:
  "\<not> terminate v \<Longrightarrow> expiration v \<noteq> NEVER \<Longrightarrow> pt <s expiration v
     \<Longrightarrow> turn_from_wake f v pt ((e, t) # wakes) (now # clock)
         = turn_from_wake f (v\<lparr>expiration := e, terminate := t\<rparr>) now wakes clock"
  by (simp add: turn_from_wake_def)

lemma turn_terminated:
  "terminate w \<Longrightarrow> watchdog_turn f w wakes clock = Some (ToTerminate, w, wakes, clock)"
  by (simp add: watchdog_turn_def wait_for_timeout_def)

lemma turn_armed:
  "\<not> terminate w \<Longrightarrow> expiration w \<noteq> NEVER
     \<Longrightarrow> watchdog_turn f w wakes (now # clock)
         = turn_from_wake f (w\<lparr>active := True\<rparr>) now wakes clock"
  by (auto simp: watchdog_turn_def wait_for_timeout_def watchdog_wait_def turn_from_wake_def
      split: option.splits)

lemma turn_signalled:
  "\<not> terminate w \<Longrightarrow> expiration w = NEVER \<Longrightarrow> e \<noteq> NEVER \<or> t
     \<Longrightarrow> watchdog_turn f w ((e, t) # wakes) (now # clock)
         = (if t then Some (ToTerminate, w\<lparr>expiration := e, terminate := t\<rparr>, wakes, now # clock)
            else turn_from_wake f (w\<lparr>expiration := e, terminate := t, active := True\<rparr>)
                   now wakes clock)"
  by (auto simp: watchdog_turn_def wait_for_timeout_def watchdog_wait_def turn_from_wake_def
      split: option.splits)

lemma turn_spurious:
  "\<not> terminate w \<Longrightarrow> expiration w = NEVER
     \<Longrightarrow> watchdog_turn f w ((NEVER, False) # wakes) clock = watchdog_turn f w wakes clock"
proof -
  assume a: "\<not> terminate w" "expiration w = NEVER"
  then have same: "w\<lparr>expiration := NEVER, terminate := False\<rparr> = w"
    by (cases w) simp
  have "cond_wait_loop w ((NEVER, False) # wakes)
          = cond_wait_loop (w\<lparr>expiration := NEVER, terminate := False\<rparr>) wakes"
    by simp
  also have "\<dots> = cond_wait_loop w wakes"
    by (simp only: same)
  finally have c: "cond_wait_loop w ((NEVER, False) # wakes) = cond_wait_loop w wakes" .
  from a show ?thesis
    by (simp add: watchdog_turn_def wait_for_timeout_def c del: cond_wait_loop.simps)
qed

lemma turn_handler_result:
  "watchdog_turn f w wakes clock = Some (x, w', wakes', clock') \<Longrightarrow>
     (x = HandlerInvoked) =
       (\<exists>wt pt. wait_for_timeout w wakes clock = Some (Inr (wt, pt, wakes', clock'))
              \<and> \<not> terminate wt \<and> expiration wt \<noteq> NEVER \<and> w' = (f wt)\<lparr>active := False\<rparr>)"
  by (auto simp: watchdog_turn_def split: option.splits sum.splits if_splits)

lemma main_terminated:
  "terminate w \<Longrightarrow> watchdog_thread_main (Suc n) f w wakes clock = Some (w\<lparr>active := False\<rparr>, 0)"
  by (simp add: turn_terminated)

lemma main_after_handler:
  "watchdog_turn f w wakes clock = Some (HandlerInvoked, w', wakes', clock') \<Longrightarrow> terminate w'
     \<Longrightarrow> watchdog_thread_main (Suc (Suc n)) f w wakes clock = Some (w'\<lparr>active := False\<rparr>, 1)"
  by (simp add: turn_terminated)

text \<open>
  C8. (The source reads \<open>watchdog->expirateion\<close> in the test after the wait; the field
  is \<open>expiration\<close>.) At every point where the thread has woken from a wait, or entered
  \<open>watchdog_wait\<close>, with the watchdog \<open>v\<close> and the physical time \<open>pt\<close> just read:
  if \<open>terminate\<close> is false, \<open>expiration\<close> is not \<open>NEVER\<close> and \<open>pt\<close> is greater than or
  equal to \<open>expiration\<close>, the wait ends there and the handler is invoked on \<open>v\<close>, with
  \<open>active\<close> set to false afterwards; if \<open>terminate\<close> is true the turn goes to the label
  \<open>terminate\<close>, and if \<open>expiration\<close> is \<open>NEVER\<close> it ends at the \<open>continue\<close>, both
  without the handler; if the time is still less than \<open>expiration\<close> the thread waits
  again, and the same holds at the next wake. A turn of the main loop reaches such a
  point at once when the watchdog is armed, and after the wake from \<open>lf_cond_wait\<close> that
  arms it otherwise. So in every turn that ends, the handler is invoked if and only if
  the wait ended with \<open>terminate\<close> false, \<open>expiration\<close> other than \<open>NEVER\<close> and the
  physical time read last greater than or equal to \<open>expiration\<close>, and the watchdog is
  then what the handler left, with \<open>active\<close> false. After the handler the loop goes on
  with the next turn, the thread ending (with one more invocation counted) once
  \<open>terminate\<close> is found set.
\<close>

theorem watchdog_handler_iff_expired:
  "(\<not> terminate v \<and> expiration v \<noteq> NEVER \<and> expiration v \<le>s pt
      \<longrightarrow> turn_from_wake f v pt wakes clock
            = Some (HandlerInvoked, (f v)\<lparr>active := False\<rparr>, wakes, clock))
   \<and> (terminate v
        \<longrightarrow> turn_from_wake f v pt wakes clock = Some (ToTerminate, v, wakes, clock))
   \<and> (\<not> terminate v \<and> expiration v = NEVER
        \<longrightarrow> turn_from_wake f v pt wakes clock = Some (Stopped, v, wakes, clock))
   \<and> (\<not> terminate v \<and> expiration v \<noteq> NEVER \<and> pt <s expiration v
        \<longrightarrow> turn_from_wake f v pt ((e, t) # wakes) (now # clock)
              = turn_from_wake f (v\<lparr>expiration := e, terminate := t\<rparr>) now wakes clock)
   \<and> (terminate w
        \<longrightarrow> watchdog_turn f w wakes clock = Some (ToTerminate, w, wakes, clock))
   \<and> (\<not> terminate w \<and> expiration w \<noteq> NEVER
        \<longrightarrow> watchdog_turn f w wakes (now # clock)
              = turn_from_wake f (w\<lparr>active := True\<rparr>) now wakes clock)
   \<and> (\<not> terminate w \<and> expiration w = NEVER \<and> (e \<noteq> NEVER \<or> t)
        \<longrightarrow> watchdog_turn f w ((e, t) # wakes) (now # clock)
              = (if t
                 then Some (ToTerminate, w\<lparr>expiration := e, terminate := t\<rparr>, wakes,
                            now # clock)
                 else turn_from_wake f (w\<lparr>expiration := e, terminate := t, active := True\<rparr>)
                        now wakes clock))
   \<and> (\<not> terminate w \<and> expiration w = NEVER
        \<longrightarrow> watchdog_turn f w ((NEVER, False) # wakes) clock = watchdog_turn f w wakes clock)
   \<and> (watchdog_turn f w wakes clock = Some (x, w', wakes', clock')
        \<longrightarrow> (x = HandlerInvoked)
              = (\<exists>wt pt'. wait_for_timeout w wakes clock = Some (Inr (wt, pt', wakes', clock'))
                   \<and> \<not> terminate wt \<and> expiration wt \<noteq> NEVER \<and> expiration wt \<le>s pt'
                   \<and> w' = (f wt)\<lparr>active := False\<rparr>))
   \<and> (terminate w
        \<longrightarrow> watchdog_thread_main (Suc n) f w wakes clock = Some (w\<lparr>active := False\<rparr>, 0))
   \<and> (watchdog_turn f w wakes clock = Some (HandlerInvoked, w', wakes', clock')
        \<longrightarrow> \<not> active w'
            \<and> watchdog_thread_main (Suc n) f w wakes clock
                = map_option (\<lambda>(w'', k). (w'', Suc k))
                    (watchdog_thread_main n f w' wakes' clock')
            \<and> (terminate w'
                 \<longrightarrow> watchdog_thread_main (Suc (Suc n)) f w wakes clock
                       = Some (w'\<lparr>active := False\<rparr>, 1)))"
proof -
  have late: "\<And>wt pt'. wait_for_timeout w wakes clock = Some (Inr (wt, pt', wakes', clock'))
          \<Longrightarrow> \<not> terminate wt \<Longrightarrow> expiration wt \<noteq> NEVER \<Longrightarrow> expiration wt \<le>s pt'"
    using wait_for_timeout_exit by (fastforce simp: word_sless_alt word_sle_eq)
  have ended: "watchdog_turn f w wakes clock = Some (x, w', wakes', clock')
        \<longrightarrow> (x = HandlerInvoked)
              = (\<exists>wt pt'. wait_for_timeout w wakes clock = Some (Inr (wt, pt', wakes', clock'))
                   \<and> \<not> terminate wt \<and> expiration wt \<noteq> NEVER \<and> expiration wt \<le>s pt'
                   \<and> w' = (f wt)\<lparr>active := False\<rparr>)"
    using turn_handler_result [of f w wakes clock x w' wakes' clock'] late by blast
  have goes_on: "watchdog_turn f w wakes clock = Some (HandlerInvoked, w', wakes', clock')
        \<longrightarrow> \<not> active w'
            \<and> watchdog_thread_main (Suc n) f w wakes clock
                = map_option (\<lambda>(w'', k). (w'', Suc k))
                    (watchdog_thread_main n f w' wakes' clock')
            \<and> (terminate w'
                 \<longrightarrow> watchdog_thread_main (Suc (Suc n)) f w wakes clock
                       = Some (w'\<lparr>active := False\<rparr>, 1))"
    using watchdog_turn_inactive [of f w wakes clock w' wakes' clock']
      main_after_handler [of f w wakes clock w' wakes' clock' n]
    by simp
  show ?thesis
    using wake_fires [of v pt f wakes clock] wake_terminates [of v f pt wakes clock]
      wake_stopped [of v f pt wakes clock] wake_early [of v pt f e t wakes now clock]
      turn_terminated [of w f wakes clock] turn_armed [of w f wakes now clock]
      turn_signalled [of w e t f wakes now clock] turn_spurious [of w f wakes clock]
      main_terminated [of w n f wakes clock] ended goes_on
    by blast
qed

theorem watchdog_handler_iff_expired_witness:
  "turn_from_wake stopping_handler armed_watchdog 100 [] []
     = Some (HandlerInvoked, (stopping_handler armed_watchdog)\<lparr>active := False\<rparr>, [], [])
   \<and> turn_from_wake stopping_handler armed_watchdog 50 [(100, False)] [100]
       = turn_from_wake stopping_handler
           (armed_watchdog\<lparr>expiration := 100, terminate := False\<rparr>) 100 [] []
   \<and> watchdog_thread_main (Suc (Suc 0)) stopping_handler armed_watchdog [(100, False)] [50, 100]
       = Some (\<lparr>expiration = NEVER, min_expiration = 10, active = False, terminate = True\<rparr>, 1)"
proof -
  have h: "\<not> terminate armed_watchdog \<and> expiration armed_watchdog \<noteq> NEVER
           \<and> expiration armed_watchdog \<le>s 100"
    and h': "\<not> terminate armed_watchdog \<and> expiration armed_watchdog \<noteq> NEVER
           \<and> 50 <s expiration armed_watchdog"
    by (simp_all add: armed_watchdog_def NEVER_def word_sle_eq word_sless_alt)
  note inst = watchdog_handler_iff_expired
    [of armed_watchdog 100 stopping_handler "[]" "[]" 100 False 100 armed_watchdog _ _ _ _ 0]
  note inst' = watchdog_handler_iff_expired
    [of armed_watchdog 50 stopping_handler "[]" "[]" 100 False 100 armed_watchdog _ _ _ _ 0]
  have fires: "turn_from_wake stopping_handler armed_watchdog 100 [] []
     = Some (HandlerInvoked, (stopping_handler armed_watchdog)\<lparr>active := False\<rparr>, [], [])"
    using inst h by blast
  have waits: "turn_from_wake stopping_handler armed_watchdog 50 [(100, False)] [100]
       = turn_from_wake stopping_handler
           (armed_watchdog\<lparr>expiration := 100, terminate := False\<rparr>) 100 [] []"
    using inst' h' by blast
  have runs: "watchdog_thread_main (Suc (Suc 0)) stopping_handler armed_watchdog
                [(100, False)] [50, 100]
       = Some (\<lparr>expiration = NEVER, min_expiration = 10, active = False, terminate = True\<rparr>, 1)"
    by (simp add: watchdog_turn_def wait_for_timeout_def watchdog_wait_def
        armed_watchdog_def stopping_handler_def NEVER_def word_sless_alt)
  from fires waits runs show ?thesis
    by blast
qed

lemma wait_loop_no_terminate:
  assumes "watchdog_wait_loop w pt wakes clock = Some (w', pt', wakes', clock')"
    and "\<not> terminate w" and "\<forall>x \<in> set wakes. \<not> snd x"
  shows "\<not> terminate w' \<and> set wakes' \<subseteq> set wakes"
  using assms
proof (induction w pt wakes clock rule: watchdog_wait_loop.induct)
  case (1 w physical_time clock)
  then show ?case by (auto split: if_splits)
next
  case (2 w physical_time e t wakes clock)
  show ?case
  proof (cases "expiration w \<noteq> NEVER \<and> physical_time <s expiration w \<and> \<not> terminate w")
    case True
    with "2.prems" obtain now clock2 where cl: "clock = now # clock2"
      by (cases clock) auto
    from "2.prems" True cl
    have rec: "watchdog_wait_loop (w\<lparr>expiration := e, terminate := t\<rparr>) now wakes clock2
                 = Some (w', pt', wakes', clock')"
      by simp
    have "\<not> terminate (w\<lparr>expiration := e, terminate := t\<rparr>)"
      using "2.prems"(3) by simp
    moreover have "\<forall>x \<in> set wakes. \<not> snd x"
      using "2.prems"(3) by simp
    ultimately have "\<not> terminate w' \<and> set wakes' \<subseteq> set wakes"
      using "2.IH" [OF True cl rec] by blast
    then show ?thesis by auto
  next
    case False
    with "2.prems" show ?thesis by (auto split: if_splits)
  qed
qed

lemma cond_wait_no_terminate:
  assumes "cond_wait_loop w wakes = Some (w', wakes')"
    and "\<forall>x \<in> set wakes. \<not> snd x"
  shows "\<not> terminate w' \<and> set wakes' \<subseteq> set wakes"
  using assms
  by (induction w wakes rule: cond_wait_loop.induct) (auto split: if_splits)

lemma watchdog_wait_no_terminate:
  assumes "watchdog_wait v wk cl = Some (wt, pt, wk', cl')"
    and "\<not> terminate v" and "\<forall>x \<in> set wk. \<not> snd x"
  shows "\<not> terminate wt \<and> set wk' \<subseteq> set wk"
  using assms
  by (auto simp: watchdog_wait_def split: list.splits dest!: wait_loop_no_terminate)

lemma wait_for_timeout_no_terminate:
  assumes "wait_for_timeout w wakes clock = Some r"
    and "\<not> terminate w" and "\<forall>x \<in> set wakes. \<not> snd x"
  shows "\<exists>wt pt wk cl. r = Inr (wt, pt, wk, cl) \<and> \<not> terminate wt \<and> set wk \<subseteq> set wakes"
proof (cases "expiration w \<noteq> NEVER")
  case True
  with assms(1,2) obtain wt pt wk cl where r: "r = Inr (wt, pt, wk, cl)"
    and ww: "watchdog_wait w wakes clock = Some (wt, pt, wk, cl)"
    by (auto simp: wait_for_timeout_def)
  from watchdog_wait_no_terminate [OF ww assms(2,3)] r show ?thesis
    by blast
next
  case False
  with assms(1,2) obtain w1 wk1 where c: "cond_wait_loop w wakes = Some (w1, wk1)"
    by (auto simp: wait_for_timeout_def split: option.splits)
  from cond_wait_no_terminate [OF c assms(3)]
  have t1: "\<not> terminate w1" and sub: "set wk1 \<subseteq> set wakes"
    by auto
  from sub assms(3) have k1: "\<forall>x \<in> set wk1. \<not> snd x"
    by blast
  from assms(1,2) False c t1 obtain wt pt wk cl where r: "r = Inr (wt, pt, wk, cl)"
    and ww: "watchdog_wait w1 wk1 clock = Some (wt, pt, wk, cl)"
    by (auto simp: wait_for_timeout_def)
  from watchdog_wait_no_terminate [OF ww t1 k1] sub r show ?thesis
    by blast
qed

lemma turn_no_terminate:
  assumes "watchdog_turn f w wakes clock = Some (e, w', wakes', clock')"
    and "\<not> terminate w" and "\<forall>x \<in> set wakes. \<not> snd x"
    and "\<And>x. \<not> terminate x \<Longrightarrow> \<not> terminate (f x)"
  shows "e \<noteq> ToTerminate \<and> \<not> terminate w' \<and> (\<forall>x \<in> set wakes'. \<not> snd x)"
proof -
  from assms(1) obtain r where wft: "wait_for_timeout w wakes clock = Some r"
    by (auto simp: watchdog_turn_def split: option.splits)
  from wait_for_timeout_no_terminate [OF wft assms(2,3)]
  obtain wt pt wk cl where r: "r = Inr (wt, pt, wk, cl)"
    and t: "\<not> terminate wt" and sub: "set wk \<subseteq> set wakes"
    by blast
  from assms(1) wft r t
  have "wakes' = wk" and "e \<noteq> ToTerminate"
    and "w' = wt \<or> w' = (f wt)\<lparr>active := False\<rparr>"
    by (auto simp: watchdog_turn_def split: if_splits)
  with t sub assms(3) assms(4) [OF t] show ?thesis
    by auto
qed

text \<open>
  So the join of the shutdown waits for a thread that does not come to its label
  \<open>terminate\<close>: as long as no other thread sets the flag (and the handler does not),
  \<open>watchdog_thread_main\<close> returns for no amount of fuel.
\<close>

lemma stopped_thread_never_terminates:
  assumes "\<not> terminate w" and "\<forall>x \<in> set wakes. \<not> snd x"
    and "\<And>x. \<not> terminate x \<Longrightarrow> \<not> terminate (f x)"
  shows "watchdog_thread_main n f w wakes clock = None"
  using assms
proof (induction n arbitrary: w wakes clock)
  case 0
  then show ?case by simp
next
  case (Suc n)
  show ?case
  proof (cases "watchdog_turn f w wakes clock")
    case None
    then show ?thesis by simp
  next
    case (Some res)
    obtain e w' wakes' clock' where res: "res = (e, w', wakes', clock')"
      by (cases res)
    from turn_no_terminate [OF Some [unfolded res] Suc.prems(1,2,3)]
    have e: "e \<noteq> ToTerminate" and t: "\<not> terminate w'" and k: "\<forall>x \<in> set wakes'. \<not> snd x"
      by auto
    have "watchdog_thread_main n f w' wakes' clock' = None"
      using Suc.IH [OF t k Suc.prems(3)] .
    with Some res e show ?thesis
      by (cases e) simp_all
  qed
qed

subsection \<open>Asking for a reaction\<close>


lemma pop_executing_None:
  "pop_executing s = Inr (None, s1) \<Longrightarrow> s1 = s"
  by (auto simp: pop_executing_def pqueue_pop_def list_update_same_conv
      split: option.splits if_splits list.splits)

lemma pop_executing_SomeD:
  "pop_executing s = Inr (Some r, s') \<Longrightarrow>
     \<exists>k q. executing_reactions (scheduler s) = Some k
        \<and> k < length (triggered_reactions (scheduler s))
        \<and> triggered_reactions (scheduler s) ! k = r # q
        \<and> pqueue_pop (triggered_reactions (scheduler s) ! k) = (Some r, q)
        \<and> s' = s\<lparr>scheduler := (scheduler s)
                   \<lparr>triggered_reactions := (triggered_reactions (scheduler s))[k := q]\<rparr>\<rparr>"
  by (auto simp: pop_executing_def pqueue_pop_def split: option.splits if_splits list.splits)








subsection \<open>Queue and status\<close>

lemma accounted_frame:
  "triggered_reactions (scheduler s') = triggered_reactions (scheduler s)
     \<Longrightarrow> reactions s' = reactions s \<Longrightarrow> accounted s h \<Longrightarrow> accounted s' h"
  by (simp add: accounted_def on_queue_def)

lemma count_insert_other: "r' \<noteq> r \<Longrightarrow> count_list (pqueue_insert h q r) r' = count_list q r'"
  by (simp add: pqueue_insert_def count_list_insort_key)

lemma trigger_accounted:
  assumes "lf_scheduler_trigger_reaction s x w = Inr s'" and "accounted s h"
  shows "accounted s' h"
proof (cases x)
  case None
  with assms show ?thesis by (simp add: lf_scheduler_trigger_reaction_def)
next
  case (Some r)
  show ?thesis
  proof (cases "status (reactions s r) = inactive")
    case False
    with assms Some show ?thesis by (simp add: trigger_noop)
  next
    case True
    with assms(1) Some obtain q0 qs where tr: "triggered_reactions (scheduler s) = q0 # qs"
      by (cases "triggered_reactions (scheduler s)")
         (auto simp: lf_scheduler_trigger_reaction_def lf_sched_insert_reaction_def cas_eval)
    from trigger_first [OF True tr, of w] assms(1) Some
    have s': "s' = s\<lparr>reactions := (reactions s)(r := (reactions s r)\<lparr>status := queued\<rparr>),
            scheduler := (scheduler s)\<lparr>triggered_reactions :=
               pqueue_insert ((reactions s)(r := (reactions s r)\<lparr>status := queued\<rparr>)) q0 r
                 # qs\<rparr>\<rparr>"
      by simp
    from assms(2) True have zero: "count_list (on_queue s) r + count_list h r = 0"
      by (simp add: accounted_def)
    show ?thesis
      unfolding accounted_def
    proof
      fix r'
      show "count_list (on_queue s') r' + count_list h r'
              = (if status (reactions s' r') = queued then 1 else 0)"
      proof (cases "r' = r")
        case True
        with zero show ?thesis
          by (simp add: s' on_queue_def tr count_list_pqueue_insert)
      next
        case False
        with assms(2) show ?thesis
          by (simp add: s' on_queue_def tr count_insert_other accounted_def)
      qed
    qed
  qed
qed

lemma trigger_reactions_accounted:
  "trigger_reactions s rs = Inr s' \<Longrightarrow> accounted s h \<Longrightarrow> accounted s' h"
  by (induction rs arbitrary: s) (auto split: sum.splits dest: trigger_accounted)

lemma advance_tag_locked_accounted:
  assumes "lf_sched_advance_tag_locked s = Inr (b, s')" and "accounted s h"
  shows "accounted s' h"
proof (cases "event_queue s")
  case Nil
  with assms show ?thesis by (simp add: lf_sched_advance_tag_locked_def)
next
  case (Cons rs later)
  with assms(1) have t: "trigger_reactions (s\<lparr>event_queue := later\<rparr>) rs = Inr s'"
    by (auto simp: lf_sched_advance_tag_locked_def split: sum.splits)
  have "accounted (s\<lparr>event_queue := later\<rparr>) h"
    using assms(2) by (rule accounted_frame [rotated 2]) simp_all
  with t show ?thesis by (rule trigger_reactions_accounted)
qed

lemma advance_tag_at_last_level_accounted:
  assumes "advance_tag_at_last_level s = Inr (b, s')" and "accounted s h"
  shows "accounted s' h"
proof (cases "next_reaction_level (scheduler s) = max_reaction_level (scheduler s) + 1")
  case False
  with assms show ?thesis by (simp add: advance_tag_at_last_level_def)
next
  case True
  let ?s0 = "s\<lparr>scheduler := (scheduler s)\<lparr>next_reaction_level := 0\<rparr>\<rparr>"
  have a0: "accounted ?s0 h"
    using assms(2) by (rule accounted_frame [rotated 2]) simp_all
  from assms(1) True obtain b1 s1 where adv: "lf_sched_advance_tag_locked ?s0 = Inr (b1, s1)"
    and s': "s' = s1 \<or> s' = s1\<lparr>scheduler := lf_sched_signal_stop (scheduler s1)\<rparr>"
    by (auto simp: advance_tag_at_last_level_def split: sum.splits bool.splits)
  from advance_tag_locked_accounted [OF adv a0] have a1: "accounted s1 h" .
  have "accounted (s1\<lparr>scheduler := lf_sched_signal_stop (scheduler s1)\<rparr>) h"
    using a1 by (rule accounted_frame [rotated 2]) (simp_all add: lf_sched_signal_stop_def)
  with a1 s' show ?thesis
    by blast
qed

lemma distribute_queues:
  "lf_sched_distribute_ready_reactions sch = Inr (k, sch')
     \<Longrightarrow> triggered_reactions sch' = triggered_reactions sch"
proof (induction sch rule: lf_sched_distribute_ready_reactions.induct)
  case (1 sch)
  note unfold = lf_sched_distribute_ready_reactions.simps [of sch]
  show ?case
  proof (cases "next_reaction_level sch \<le> max_reaction_level sch")
    case False
    with "1.prems" show ?thesis by (simp add: unfold)
  next
    case True
    with "1.prems" obtain q where
      rd: "array_read (triggered_reactions sch)
             (try_advance_level (next_reaction_level sch) - 1) = Inr q"
      by (auto simp: unfold split: sum.splits)
    show ?thesis
    proof (cases "pqueue_size q \<noteq> 0")
      case nonempty: True
      with True rd "1.prems" show ?thesis
        by (auto simp: unfold)
    next
      case empty: False
      with True rd "1.prems"
      have rec: "lf_sched_distribute_ready_reactions
                   (sch\<lparr>next_reaction_level := try_advance_level (next_reaction_level sch)\<rparr>)
                 = Inr (k, sch')"
        by (simp add: unfold)
      from "1.IH" [OF True rd empty rec]
      show ?thesis by simp
    qed
  qed
qed

lemma notify_queues:
  "lf_sched_notify_workers sch = Inr sch' \<Longrightarrow> triggered_reactions sch' = triggered_reactions sch"
  by (auto simp: lf_sched_notify_workers_def Let_def split: sum.splits if_splits)

lemma try_advance_tag_loop_accounted:
  "try_advance_tag_loop n s = Some (Inr s') \<Longrightarrow> accounted s h \<Longrightarrow> accounted s' h"
proof (induction n arbitrary: s)
  case 0
  then show ?case by simp
next
  case (Suc n)
  from Suc.prems(1) obtain b s1 where adv: "advance_tag_at_last_level s = Inr (b, s1)"
    by (auto split: sum.splits)
  from advance_tag_at_last_level_accounted [OF adv Suc.prems(2)] have a1: "accounted s1 h" .
  show ?case
  proof (cases b)
    case True
    with Suc.prems(1) adv a1 show ?thesis by simp
  next
    case False
    with Suc.prems(1) adv obtain k sch where
      d: "lf_sched_distribute_ready_reactions (scheduler s1) = Inr (k, sch)"
      by (auto split: sum.splits)
    have a2: "accounted (s1\<lparr>scheduler := sch\<rparr>) h"
      using a1 by (rule accounted_frame [rotated 2]) (simp_all add: distribute_queues [OF d])
    show ?thesis
    proof (cases "k > 0")
      case True
      with Suc.prems(1) adv False d obtain sch' where
        n: "lf_sched_notify_workers sch = Inr sch'" and s': "s' = s1\<lparr>scheduler := sch'\<rparr>"
        by (auto split: sum.splits)
      have "accounted (s1\<lparr>scheduler := sch'\<rparr>) h"
        using a2 by (rule accounted_frame [rotated 2]) (simp_all add: notify_queues [OF n])
      with s' show ?thesis
        by simp
    next
      case nk: False
      with Suc.prems(1) adv False d
      have "try_advance_tag_loop n (s1\<lparr>scheduler := sch\<rparr>) = Some (Inr s')"
        by simp
      from Suc.IH [OF this a2] show ?thesis .
    qed
  qed
qed

lemma wait_for_work_accounted:
  assumes "lf_sched_wait_for_work n s w = Some res" and "accounted s h"
  shows "case res of Returns s' \<Rightarrow> accounted s' h | Parked s' \<Rightarrow> accounted s' h | Faults f \<Rightarrow> True"
proof -
  obtain idle ret where af: "lf_atomic_add_fetch32 (number_of_idle_workers (scheduler s)) = (idle, ret)"
    by (cases "lf_atomic_add_fetch32 (number_of_idle_workers (scheduler s))")
  let ?s1 = "s\<lparr>scheduler := (scheduler s)\<lparr>number_of_idle_workers := idle\<rparr>\<rparr>"
  have a1: "accounted ?s1 h"
    using assms(2) by (rule accounted_frame [rotated 2]) simp_all
  let ?s2 = "?s1\<lparr>scheduler := (scheduler ?s1)
                \<lparr>semaphore := (semaphore (scheduler ?s1))
                   \<lparr>permits := permits (semaphore (scheduler ?s1)) - 1\<rparr>\<rparr>\<rparr>"
  have a2: "accounted ?s2 h"
    using a1 by (rule accounted_frame [rotated 2]) simp_all
  show ?thesis
  proof (cases "ret = number_of_workers (scheduler s)")
    case True
    show ?thesis
    proof (cases res)
      case (Returns s')
      with assms(1) af True
      have "lf_scheduler_try_advance_tag_and_distribute n ?s1 = Some (Inr s')"
        by (auto simp: lf_sched_wait_for_work_def Let_def split: option.splits sum.splits)
      then have "try_advance_tag_loop n ?s1 = Some (Inr s')"
        by (auto simp: lf_scheduler_try_advance_tag_and_distribute_def
            split: sum.splits if_splits)
      from try_advance_tag_loop_accounted [OF this a1] Returns show ?thesis by simp
    next
      case (Faults f)
      then show ?thesis by simp
    next
      case (Parked s')
      with assms(1) af True show ?thesis
        by (auto simp: lf_sched_wait_for_work_def Let_def split: option.splits sum.splits)
    qed
  next
    case False
    with assms(1) af have "res = Returns ?s2 \<or> res = Parked ?s1"
      by (auto simp: lf_sched_wait_for_work_def Let_def split: if_splits)
    with a1 a2 show ?thesis
      by auto
  qed
qed


lemma count_list_concat_update:
  assumes "k < length tr" and "tr ! k = r # q"
  shows "count_list (concat tr) x
           = count_list (concat (tr[k := q])) x + (if x = r then 1 else 0)"
proof -
  have a: "tr = take k tr @ (r # q) # drop (Suc k) tr"
    using assms by (metis id_take_nth_drop)
  have b: "tr[k := q] = take k tr @ q # drop (Suc k) tr"
    using assms(1) by (rule upd_conv_take_nth_drop)
  have "count_list (concat (take k tr @ (r # q) # drop (Suc k) tr)) x
          = count_list (concat (take k tr @ q # drop (Suc k) tr)) x + (if x = r then 1 else 0)"
    by simp
  with a b show ?thesis by metis
qed

lemma pop_executing_accounted:
  assumes "pop_executing s = Inr (Some r, s')" and "accounted s h"
  shows "accounted s' (r # h)"
proof -
  from pop_executing_SomeD [OF assms(1)] obtain k q where
    k: "k < length (triggered_reactions (scheduler s))"
    and hd: "triggered_reactions (scheduler s) ! k = r # q"
    and s': "s' = s\<lparr>scheduler := (scheduler s)
                   \<lparr>triggered_reactions := (triggered_reactions (scheduler s))[k := q]\<rparr>\<rparr>"
    by blast
  have q': "on_queue s' = concat ((triggered_reactions (scheduler s))[k := q])"
    and h': "reactions s' = reactions s"
    by (simp_all add: s' on_queue_def)
  show ?thesis
    unfolding accounted_def
  proof
    fix x
    from assms(2) have A: "count_list (concat (triggered_reactions (scheduler s))) x
            + count_list h x = (if status (reactions s x) = queued then 1 else 0)"
      by (simp add: accounted_def on_queue_def)
    note B = count_list_concat_update [OF k hd, of x]
    show "count_list (on_queue s') x + count_list (r # h) x
            = (if status (reactions s' x) = queued then 1 else 0)"
      unfolding q' h' using A B by (cases "x = r") auto
  qed
qed

lemma get_ready_accounted:
  "lf_sched_get_ready_reaction n s w = Some res \<Longrightarrow> accounted s h \<Longrightarrow>
     (case res of
        Returns (None, s') \<Rightarrow> accounted s' h
      | Returns (Some r, s') \<Rightarrow> accounted s' (r # h)
      | Parked s' \<Rightarrow> accounted s' h
      | Faults f \<Rightarrow> True)"
proof (induction n arbitrary: s)
  case 0
  then show ?case by simp
next
  case (Suc n)
  show ?case
  proof (cases "should_stop (scheduler s)")
    case True
    with Suc.prems show ?thesis by auto
  next
    case ns: False
    show ?thesis
    proof (cases "pop_executing s")
      case (Inl f)
      with ns Suc.prems show ?thesis by auto
    next
      case (Inr p)
      obtain y s1 where p: "p = (y, s1)" by (cases p)
      show ?thesis
      proof (cases y)
        case (Some r)
        with ns Inr p Suc.prems have "res = Returns (Some r, s1)" by simp
        with pop_executing_accounted [OF Inr [unfolded p Some] Suc.prems(2)]
        show ?thesis by simp
      next
        case None
        with Inr p have s1: "s1 = s" by (simp add: pop_executing_None)
        from ns Inr p None Suc.prems(1) obtain wres where
          ww: "lf_sched_wait_for_work n s1 (word_of_int w) = Some wres"
          by (auto split: option.splits)
        from wait_for_work_accounted [OF ww] Suc.prems(2) s1
        have wa: "case wres of Returns s' \<Rightarrow> accounted s' h | Parked s' \<Rightarrow> accounted s' h
                   | Faults f \<Rightarrow> True"
          by simp
        show ?thesis
        proof (cases wres)
          case (Returns s2)
          with ns Inr p None ww Suc.prems(1)
          have rec: "lf_sched_get_ready_reaction n s2 w = Some res" by simp
          from wa Returns have "accounted s2 h" by simp
          from Suc.IH [OF rec this] show ?thesis .
        next
          case (Faults f)
          with ns Inr p None ww Suc.prems(1) show ?thesis by auto
        next
          case (Parked s2)
          with ns Inr p None ww Suc.prems(1) wa show ?thesis by auto
        qed
      qed
    qed
  qed
qed

lemma in_set_count_list: "(x \<in> set xs) = (0 < count_list xs x)"
  by (induction xs) auto

lemma count_list_remove1:
  "r \<in> set h \<Longrightarrow> count_list h x = count_list (remove1 r h) x + (if x = r then 1 else 0)"
  by (induction h) auto

lemma done_accounted:
  assumes "r \<in> set h" and "accounted s h"
  shows "\<exists>s'. lf_sched_done_with_reaction s w r = Inr s' \<and> accounted s' (remove1 r h)"
proof -
  from assms(1) have pos: "count_list h r > 0"
    by (simp add: in_set_count_list)
  from assms(2) have acc: "\<And>x. count_list (on_queue s) x + count_list h x
            = (if status (reactions s x) = queued then 1 else 0)"
    by (simp add: accounted_def)
  from acc [of r] pos have q: "status (reactions s r) = queued"
    by (auto split: if_splits)
  let ?s' = "s\<lparr>reactions := (reactions s)(r := (reactions s r)\<lparr>status := inactive\<rparr>)\<rparr>"
  have d: "lf_sched_done_with_reaction s w r = Inr ?s'"
    using q by (simp add: lf_sched_done_with_reaction_def cas_eval)
  have "accounted ?s' (remove1 r h)"
    unfolding accounted_def
  proof
    fix x
    have oq: "on_queue ?s' = on_queue s"
      by (simp add: on_queue_def)
    show "count_list (on_queue ?s') x + count_list (remove1 r h) x
            = (if status (reactions ?s' x) = queued then 1 else 0)"
    proof (cases "x = r")
      case True
      from acc [of r] q have "count_list (on_queue s) r + count_list h r = 1"
        by simp
      moreover from count_list_remove1 [OF assms(1), of r]
      have "count_list h r = count_list (remove1 r h) r + 1"
        by simp
      ultimately have "count_list (on_queue s) r + count_list (remove1 r h) r = 0"
        by arith
      with True show ?thesis
        by (simp add: oq)
    next
      case False
      from count_list_remove1 [OF assms(1), of x] False
      have "count_list (remove1 r h) x = count_list h x"
        by simp
      with acc [of x] False show ?thesis
        by (simp add: oq)
    qed
  qed
  with d show ?thesis by blast
qed

lemma after_get_ready_accounted:
  assumes "after_get_ready sys (Some res) = Some sys'"
    and "case res of
        Returns (None, s') \<Rightarrow> accounted s' (handed_out sys)
      | Returns (Some r, s') \<Rightarrow> accounted s' (r # handed_out sys)
      | Parked s' \<Rightarrow> accounted s' (handed_out sys)
      | Faults f \<Rightarrow> True"
  shows "sys_accounted sys'"
  using assms
  by (auto simp: after_get_ready_def sys_accounted_def
      split: outcome.splits option.splits prod.splits)

lemma api_step_accounted:
  assumes "api_step n sys c = Some sys'" and "sys_accounted sys"
  shows "sys_accounted sys'"
proof (cases c)
  case (Trigger r w)
  with assms show ?thesis
    by (auto simp: sys_accounted_def split: sum.splits dest: trigger_accounted)
next
  case (GetReady w)
  with assms(1) obtain res where
    g: "lf_sched_get_ready_reaction n (shared sys) w = Some res"
    and a: "after_get_ready sys (Some res) = Some sys'"
    by (cases "lf_sched_get_ready_reaction n (shared sys) w")
       (auto simp: after_get_ready_def)
  from get_ready_accounted [OF g] assms(2) after_get_ready_accounted [OF a]
  show ?thesis by (simp add: sys_accounted_def)
next
  case (Resume w)
  with assms(1) obtain res where
    g: "lf_sched_get_ready_reaction n (take_permit (shared sys)) w = Some res"
    and a: "after_get_ready sys (Some res) = Some sys'"
    by (cases "lf_sched_get_ready_reaction n (take_permit (shared sys)) w")
       (auto simp: after_get_ready_def split: if_splits)
  have "accounted (take_permit (shared sys)) (handed_out sys)"
    using assms(2) unfolding sys_accounted_def
    by (rule accounted_frame [rotated 2]) (simp_all add: take_permit_def)
  from get_ready_accounted [OF g this] after_get_ready_accounted [OF a]
  show ?thesis by simp
next
  case (DoneWith w r)
  with assms(1) have r: "r \<in> set (handed_out sys)"
    by (auto split: if_splits)
  from done_accounted [OF r, of "shared sys" w] assms DoneWith r show ?thesis
    by (auto simp: sys_accounted_def)
qed

lemma run_accounted:
  "run n sys cs = Some sys' \<Longrightarrow> sys_accounted sys \<Longrightarrow> sys_accounted sys'"
  by (induction cs arbitrary: sys) (auto split: option.splits dest: api_step_accounted)

lemma run_fetches_reaction:
  "run 1 two_worker_system [Trigger (Some 7) 0, GetReady 0] = Some fetched_system"
  by (simp add: two_worker_system_def two_worker_state_def fetched_system_def
      two_worker_scheduler_def lf_scheduler_trigger_reaction_def lf_sched_insert_reaction_def
      cas_eval pqueue_insert_def fresh_heap_def after_get_ready_def pop_executing_def
      pqueue_pop_def)

text \<open>
  C4 as the spec has it fails between the pop and \<open>lf_sched_done_with_reaction\<close>: after
  reaction 7 is triggered and a worker has fetched it, its status is still \<open>queued\<close>
  and it is on no queue.
\<close>

theorem queued_reaction_off_the_queue:
  "run 1 two_worker_system [Trigger (Some 7) 0, GetReady 0] = Some fetched_system
   \<and> status (reactions (shared fetched_system) 7) = queued
   \<and> 7 \<notin> set (on_queue (shared fetched_system))"
proof -
  have "status (reactions (shared fetched_system) 7) = queued
        \<and> 7 \<notin> set (on_queue (shared fetched_system))"
    by (simp add: fetched_system_def on_queue_def two_worker_state_def
        two_worker_scheduler_def fresh_heap_def)
  with run_fetches_reaction show ?thesis
    by blast
qed

text \<open>
  C4, as the code has it. Start with no reaction queued, empty queues and nothing handed
  out, and let any calls of \<open>lf_scheduler_trigger_reaction\<close>,
  \<open>lf_sched_get_ready_reaction\<close> and \<open>lf_sched_done_with_reaction\<close> follow, each made
  as a whole, the last by a worker on a reaction handed to it. In the state reached, a
  reaction on the reaction queue has the status \<open>queued\<close>; a reaction has the status
  \<open>queued\<close> if and only if it is on the queue or has been popped for a worker that is
  not yet done with it, never both; and it is on the queue at most once.
\<close>

theorem queued_iff_on_queue_or_handed_out:
  assumes "run n sys0 cs = Some sys"
    and "\<forall>r. status (reactions (shared sys0) r) \<noteq> queued"
    and "on_queue (shared sys0) = []"
    and "handed_out sys0 = []"
  shows "(r \<in> set (on_queue (shared sys)) \<longrightarrow> status (reactions (shared sys) r) = queued)
       \<and> (status (reactions (shared sys) r) = queued)
           = (r \<in> set (on_queue (shared sys)) \<or> r \<in> set (handed_out sys))
       \<and> \<not> (r \<in> set (on_queue (shared sys)) \<and> r \<in> set (handed_out sys))
       \<and> count_list (on_queue (shared sys)) r \<le> 1
       \<and> count_list (handed_out sys) r \<le> 1"
proof -
  have "sys_accounted sys0"
    using assms(2,3,4) by (simp add: sys_accounted_def accounted_def)
  from run_accounted [OF assms(1) this]
  have "count_list (on_queue (shared sys)) r + count_list (handed_out sys) r
            = (if status (reactions (shared sys) r) = queued then 1 else 0)"
    by (simp add: sys_accounted_def accounted_def)
  moreover have "(r \<in> set (on_queue (shared sys))) = (count_list (on_queue (shared sys)) r > 0)"
    and "(r \<in> set (handed_out sys)) = (count_list (handed_out sys) r > 0)"
    by (rule in_set_count_list)+
  ultimately show ?thesis
    by (auto split: if_splits)
qed

theorem queued_iff_on_queue_or_handed_out_witness:
  "run 1 two_worker_system [Trigger (Some 7) 0, GetReady 0] = Some fetched_system
   \<and> (status (reactions (shared fetched_system) 7) = queued)
       = (7 \<in> set (on_queue (shared fetched_system)) \<or> 7 \<in> set (handed_out fetched_system))
   \<and> 7 \<in> set (handed_out fetched_system)"
proof -
  have h2: "\<forall>r. status (reactions (shared two_worker_system) r) \<noteq> queued"
    by (simp add: two_worker_system_def two_worker_state_def fresh_heap_def)
  have h3: "on_queue (shared two_worker_system) = []"
    by (simp add: two_worker_system_def two_worker_state_def two_worker_scheduler_def
        on_queue_def)
  have h4: "handed_out two_worker_system = []"
    by (simp add: two_worker_system_def)
  have "7 \<in> set (handed_out fetched_system)"
    by (simp add: fetched_system_def)
  with queued_iff_on_queue_or_handed_out [OF run_fetches_reaction h2 h3 h4, of 7]
    run_fetches_reaction
  show ?thesis
    by blast
qed

subsection \<open>Levels\<close>

text \<open>
  Two calls of \<open>lf_sched_get_ready_reaction\<close>, one after the other with no
  \<open>lf_sched_done_with_reaction\<close> between them, hand out the first two reactions of the
  executing queue, whatever their indices: nothing reads the level.
\<close>

lemma get_ready_reaction_twice:
  assumes "\<not> should_stop (scheduler s)"
    and "executing_reactions (scheduler s) = Some k"
    and "k < length (triggered_reactions (scheduler s))"
    and "triggered_reactions (scheduler s) ! k = a # b # rest"
  shows "lf_sched_get_ready_reaction (Suc n) s w
           = Some (Returns (Some a, s\<lparr>scheduler := (scheduler s)
                \<lparr>triggered_reactions := (triggered_reactions (scheduler s))[k := b # rest]\<rparr>\<rparr>))
       \<and> lf_sched_get_ready_reaction (Suc m)
            (s\<lparr>scheduler := (scheduler s)
                \<lparr>triggered_reactions := (triggered_reactions (scheduler s))[k := b # rest]\<rparr>\<rparr>) w'
           = Some (Returns (Some b, s\<lparr>scheduler := (scheduler s)
                \<lparr>triggered_reactions := (triggered_reactions (scheduler s))[k := rest]\<rparr>\<rparr>))"
  using assms by (simp add: pop_executing_def pqueue_pop_def)

text \<open>
  C10. The claim is that every reaction of a level is completed before any reaction of
  a higher level begins. The code does not keep the levels apart: with two workers and
  the reactions 0 (level 0) and 1 (level 1) of a program of two levels triggered at the
  same tag, worker 0 is handed reaction 0 and, before it is done with it, worker 1 is
  handed reaction 1; both are then in the hands of workers, each with the status
  \<open>queued\<close>.
\<close>

theorem higher_level_handed_out_before_lower_done:
  "drop_bit 48 (index (levelled_heap 0)) = 0
   \<and> drop_bit 48 (index (levelled_heap 1)) = 1
   \<and> take_bit 16 (index (levelled_heap 0)) = 0
   \<and> take_bit 16 (index (levelled_heap 1)) = 1
   \<and> run 1 levelled_system
        [Trigger (Some 1) (- 1), Trigger (Some 0) (- 1), GetReady 0, GetReady 1]
       = Some both_running_system
   \<and> handed_out both_running_system = [1, 0]
   \<and> status (reactions (shared both_running_system) 0) = queued
   \<and> status (reactions (shared both_running_system) 1) = queued"
proof -
  have levels: "drop_bit 48 (index (levelled_heap 0)) = 0
      \<and> drop_bit 48 (index (levelled_heap 1)) = 1
      \<and> take_bit 16 (index (levelled_heap 0)) = 0
      \<and> take_bit 16 (index (levelled_heap 1)) = 1"
    by (simp add: levelled_heap_def)
  have runs: "run 1 levelled_system
        [Trigger (Some 1) (- 1), Trigger (Some 0) (- 1), GetReady 0, GetReady 1]
       = Some both_running_system"
    by (simp add: levelled_system_def both_running_system_def two_worker_scheduler_def
        lf_scheduler_trigger_reaction_def lf_sched_insert_reaction_def cas_eval
        pqueue_insert_def levelled_heap_def after_get_ready_def pop_executing_def
        pqueue_pop_def fun_upd_twist)
  have ends: "handed_out both_running_system = [1, 0]
      \<and> status (reactions (shared both_running_system) 0) = queued
      \<and> status (reactions (shared both_running_system) 1) = queued"
    by (simp add: both_running_system_def)
  from levels runs ends show ?thesis
    by simp
qed

end
